theory Spec2Isabelle
  imports Complex_Main
begin

section \<open>Shared error values\<close>

text \<open>
  The Python exceptions that the modelled routines can raise. A routine that can raise
  returns \<open>error + 'a\<close>, with \<open>Inl\<close> for the exception.
\<close>

datatype error =
  ValueError | IndexError | TypeError | NameError | IOError | InvalidHutchError | MissingImage

section \<open>Panel mapper (\<^verbatim>\<open>btx/interfaces/psana_interface.py\<close>)\<close>

text \<open>
  A numpy array is a nested list, outermost axis first. A panel is indexed
  \<open>[fast][slow]\<close>, a stack \<open>[panel][fast][slow]\<close>, an assembled image
  \<open>[row][col]\<close>. The pixel index map has shape \<open>(n_panels, fs, ss, 2)\<close>; its last
  axis of length two is a pair \<open>(row, col)\<close> of \<open>int64\<close> values, which may be negative.
  The number of dimensions of an argument (3 or 4 for stacks, 2 or 3 for images) is the
  constructor of \<open>stack_arg\<close> and \<open>image_arg\<close>. Pixel values are kept abstract: both
  routines only copy them into a zero-filled holder.
\<close>

type_synonym 'a panel = "'a list list"
type_synonym 'a stack = "'a panel list"
type_synonym 'a image = "'a list list"
type_synonym index_map = "(int \<times> int) panel list"

datatype 'a stack_arg = Stack3 "'a stack" | Stack4 "'a stack list"
datatype 'a image_arg = Image2 "'a image" | Image3 "'a image list"

text \<open>
  numpy resolves an index \<open>i\<close> on an axis of length \<open>n\<close>: \<open>0 \<le> i < n\<close> is the position
  itself, \<open>-n \<le> i < 0\<close> counts from the end, anything else raises IndexError.
\<close>

definition resolve :: "nat \<Rightarrow> int \<Rightarrow> nat option" where
  "resolve n i =
     (if 0 \<le> i \<and> i < int n then Some (nat i)
      else if - int n \<le> i \<and> i < 0 then Some (nat (i + int n))
      else None)"

text \<open>\<^verbatim>\<open>np.max\<close> of a non-empty array (the caller checks for emptiness).\<close>

fun amax :: "'a::{linorder,zero} list \<Rightarrow> 'a" where
  "amax [] = 0"
| "amax (x # xs) = fold max xs x"

text \<open>\<^verbatim>\<open>np.min\<close> of a non-empty array.\<close>

fun amin :: "'a::{linorder,zero} list \<Rightarrow> 'a" where
  "amin [] = 0"
| "amin (x # xs) = fold min xs x"

text \<open>The first error of a list of results, or all the values.\<close>

fun collect :: "(error + 'a) list \<Rightarrow> error + 'a list" where
  "collect [] = Inr []"
| "collect (r # rs) =
     (case r of
        Inl e \<Rightarrow> Inl e
      | Inr x \<Rightarrow> (case collect rs of Inl e \<Rightarrow> Inl e | Inr xs \<Rightarrow> Inr (x # xs)))"

text \<open>
  \<^verbatim>\<open>img[I, J] = V\<close> for one image of shape \<open>(h, w)\<close>: the points of the index arrays are
  visited in row-major order and each value is stored at its resolved cell, so a cell
  addressed twice keeps the later value.
\<close>

fun put_points :: "nat \<Rightarrow> nat \<Rightarrow> ((int \<times> int) \<times> 'a) list \<Rightarrow> 'a image \<Rightarrow> error + 'a image" where
  "put_points h w [] img = Inr img"
| "put_points h w (((i, j), v) # ps) img =
     (case (resolve h i, resolve w j) of
        (Some r, Some c) \<Rightarrow> put_points h w ps (img[r := (img ! r)[c := v]])
      | _ \<Rightarrow> Inl IndexError)"

text \<open>
  The value array must have the shape of the index arrays (numpy raises ValueError
  otherwise; broadcasting of unit axes is not modelled).
\<close>

definition setitem_fancy ::
  "nat \<Rightarrow> nat \<Rightarrow> (int \<times> int) panel \<Rightarrow> 'a panel \<Rightarrow> 'a image \<Rightarrow> error + 'a image" where
  "setitem_fancy h w idx vals img =
     (if map length vals \<noteq> map length idx then Inl ValueError
      else put_points h w (zip (concat idx) (concat vals)) img)"

text \<open>
  The loop over the panels: iteration \<open>l\<close> performs
  \<^verbatim>\<open>images[:, pixel_index_map[l, :, :, 0], pixel_index_map[l, :, :, 1]] = image_stack[:, l, :, :]\<close>
  on every image of the batch.
\<close>

fun assemble_loop ::
  "nat \<Rightarrow> nat \<Rightarrow> index_map \<Rightarrow> 'a stack list \<Rightarrow> nat list \<Rightarrow> 'a image list \<Rightarrow> error + 'a image list" where
  "assemble_loop h w pixel_index_map image_stack [] images = Inr images"
| "assemble_loop h w pixel_index_map image_stack (l # ls) images =
     (if length pixel_index_map \<le> l then Inl IndexError
      else
        (case collect (map2 (\<lambda>st img. setitem_fancy h w (pixel_index_map ! l) (st ! l) img)
                         image_stack images) of
           Inl e \<Rightarrow> Inl e
         | Inr images' \<Rightarrow> assemble_loop h w pixel_index_map image_stack ls images'))"

text \<open>
  \<^verbatim>\<open>np.expand_dims(a, 0)\<close> when the argument has no batch axis, and the final
  \<^verbatim>\<open>if a.shape[0] == 1: a = a[0]\<close> of both routines.
\<close>

fun expand_stack :: "'a stack_arg \<Rightarrow> 'a stack list" where
  "expand_stack (Stack3 s) = [s]"
| "expand_stack (Stack4 ss) = ss"

fun expand_image :: "'a image_arg \<Rightarrow> 'a image list" where
  "expand_image (Image2 i) = [i]"
| "expand_image (Image3 is) = is"

definition squeeze_images :: "'a image list \<Rightarrow> 'a image_arg" where
  "squeeze_images images = (if length images = 1 then Image2 (images ! 0) else Image3 images)"

definition squeeze_stacks :: "'a stack list \<Rightarrow> 'a stack_arg" where
  "squeeze_stacks batch = (if length batch = 1 then Stack3 (batch ! 0) else Stack4 batch)"

text \<open>
  \<^verbatim>\<open>assemble_image_stack_batch\<close>. \<^verbatim>\<open>np.max\<close> raises ValueError on a map with no entry,
  \<^verbatim>\<open>np.zeros\<close> raises ValueError on a negative dimension. \<open>panel_num\<close> is
  \<^verbatim>\<open>image_stack.shape[1]\<close>; an empty batch carries no shape in this representation and
  its loop writes nothing.
\<close>

definition assemble_image_stack_batch ::
  "'a::zero stack_arg \<Rightarrow> index_map \<Rightarrow> error + 'a image_arg" where
  "assemble_image_stack_batch image_stack pixel_index_map =
     (let image_stack = expand_stack image_stack;
          entries = concat (concat pixel_index_map)
      in if entries = [] then Inl ValueError
         else
           let index_max_x = amax (map fst entries) + 1;
               index_max_y = amax (map snd entries) + 1;
               stack_num = length image_stack;
               panel_num = (case image_stack of [] \<Rightarrow> 0 | s # _ \<Rightarrow> length s)
           in if index_max_x < 0 \<or> index_max_y < 0 then Inl ValueError
              else
                let h = nat index_max_x; w = nat index_max_y;
                    images = replicate stack_num (replicate h (replicate w 0))
                in (case assemble_loop h w pixel_index_map image_stack [0..<panel_num] images of
                      Inl e \<Rightarrow> Inl e
                    | Inr images \<Rightarrow> Inr (squeeze_images images)))"

text \<open>
  \<^verbatim>\<open>img[I, J]\<close> for one image: each point is read at its resolved cell; the axis lengths
  are those of the image itself.
\<close>

definition getitem_point :: "'a image \<Rightarrow> int \<times> int \<Rightarrow> error + 'a" where
  "getitem_point img p =
     (case resolve (length img) (fst p) of
        None \<Rightarrow> Inl IndexError
      | Some r \<Rightarrow>
          (case resolve (length (img ! r)) (snd p) of
             None \<Rightarrow> Inl IndexError
           | Some c \<Rightarrow> Inr (img ! r ! c)))"

definition getitem_fancy :: "'a image \<Rightarrow> (int \<times> int) panel \<Rightarrow> error + 'a panel" where
  "getitem_fancy img idx = collect (map (\<lambda>row. collect (map (getitem_point img) row)) idx)"

text \<open>
  The loop of \<^verbatim>\<open>disassemble_image_stack_batch\<close>: iteration \<open>panel\<close> performs
  \<^verbatim>\<open>image_stack_batch[:, panel] = images[:, idx_map_1, idx_map_2]\<close>.
\<close>

fun disassemble_loop ::
  "index_map \<Rightarrow> 'a image list \<Rightarrow> nat list \<Rightarrow> 'a stack list \<Rightarrow> error + 'a stack list" where
  "disassemble_loop pixel_index_map images [] image_stack_batch = Inr image_stack_batch"
| "disassemble_loop pixel_index_map images (panel # ps) image_stack_batch =
     (case collect (map (\<lambda>img. getitem_fancy img (pixel_index_map ! panel)) images) of
        Inl e \<Rightarrow> Inl e
      | Inr got \<Rightarrow>
          disassemble_loop pixel_index_map images ps
            (map2 (\<lambda>st g. st[panel := g]) image_stack_batch got))"

definition disassemble_image_stack_batch ::
  "'a::zero image_arg \<Rightarrow> index_map \<Rightarrow> error + 'a stack_arg" where
  "disassemble_image_stack_batch images pixel_index_map =
     (let images = expand_image images;
          image_stack_batch =
            replicate (length images) (map (map (map (\<lambda>_. 0))) pixel_index_map)
      in (case disassemble_loop pixel_index_map images [0..<length pixel_index_map]
                 image_stack_batch of
            Inl e \<Rightarrow> Inl e
          | Inr image_stack_batch \<Rightarrow> Inr (squeeze_stacks image_stack_batch)))"

subsection \<open>What the assembled image holds\<close>

text \<open>
  A coordinate pair that addresses a cell of an \<open>h \<times> w\<close> image without wrap-around, and
  an image of exactly that shape.
\<close>

definition in_canvas :: "nat \<Rightarrow> nat \<Rightarrow> int \<times> int \<Rightarrow> bool" where
  "in_canvas h w p = (0 \<le> fst p \<and> fst p < int h \<and> 0 \<le> snd p \<and> snd p < int w)"

definition has_shape :: "nat \<Rightarrow> nat \<Rightarrow> 'a image \<Rightarrow> bool" where
  "has_shape h w img = (length img = h \<and> list_all (\<lambda>row. length row = w) img)"

text \<open>
  The value that the last write to a cell carries, in a list of writes in program order.
\<close>

definition last_write :: "((int \<times> int) \<times> 'a) list \<Rightarrow> int \<times> int \<Rightarrow> 'a option" where
  "last_write ps = map_of (rev ps)"

lemma resolve_nonneg: "0 \<le> i \<Longrightarrow> i < int n \<Longrightarrow> resolve n i = Some (nat i)"
  by (simp add: resolve_def)

lemma has_shape_update:
  "has_shape h w img \<Longrightarrow> has_shape h w (img[r := (img ! r)[c := v]])"
proof -
  assume a: "has_shape h w img"
  have "length (img[r := (img ! r)[c := v]] ! n) = w" if "n < length img" for n
    using a that by (cases "n = r") (simp_all add: has_shape_def list_all_length)
  with a show ?thesis by (simp add: has_shape_def list_all_length)
qed

lemma has_shape_nth: "has_shape h w img \<Longrightarrow> r < h \<Longrightarrow> length (img ! r) = w"
  by (simp add: has_shape_def list_all_length)

lemma has_shape_zeros: "has_shape h w (replicate h (replicate w z))"
  by (simp add: has_shape_def list_all_length)

lemma last_write_Cons:
  "last_write (p # ps) k = (case last_write ps k of Some v \<Rightarrow> Some v | None \<Rightarrow> (if fst p = k then Some (snd p) else None))"
  by (cases p) (auto simp: last_write_def map_add_def split: option.splits)

lemma last_write_append:
  "last_write (ps @ qs) k = (case last_write qs k of Some v \<Rightarrow> Some v | None \<Rightarrow> last_write ps k)"
  unfolding last_write_def by (simp add: map_add_def)

lemma last_write_None: "last_write ps k = None \<longleftrightarrow> k \<notin> fst ` set ps"
  by (simp add: last_write_def map_of_eq_None_iff)

lemma last_write_SomeD: "last_write ps k = Some v \<Longrightarrow> (k, v) \<in> set ps"
  by (auto simp: last_write_def dest: map_of_SomeD)

text \<open>
  The writes of \<open>put_points\<close> without the bounds check: on coordinates inside the canvas
  \<open>put_points\<close> returns \<open>paint\<close>.
\<close>

definition store :: "(int \<times> int) \<times> 'a \<Rightarrow> 'a image \<Rightarrow> 'a image" where
  "store p img =
     img[nat (fst (fst p)) := (img ! nat (fst (fst p)))[nat (snd (fst p)) := snd p]]"

definition paint :: "((int \<times> int) \<times> 'a) list \<Rightarrow> 'a image \<Rightarrow> 'a image" where
  "paint ps img = fold store ps img"

lemma paint_Nil: "paint [] img = img"
  by (simp add: paint_def)

lemma paint_Cons: "paint (p # ps) img = paint ps (store p img)"
  by (simp add: paint_def)

lemma paint_append: "paint (ps @ qs) img = paint qs (paint ps img)"
  by (simp add: paint_def)

lemma put_points_paint:
  "list_all (in_canvas h w) (map fst ps) \<Longrightarrow> put_points h w ps img = Inr (paint ps img)"
proof (induction ps arbitrary: img)
  case Nil
  then show ?case by (simp add: paint_Nil)
next
  case (Cons p ps)
  obtain i j v where p: "p = ((i, j), v)" by (metis prod.exhaust)
  from Cons.prems p have ij: "0 \<le> i" "i < int h" "0 \<le> j" "j < int w"
    by (simp_all add: in_canvas_def)
  from Cons.prems have rest: "list_all (in_canvas h w) (map fst ps)" by simp
  show ?case
    using Cons.IH[OF rest] ij by (simp add: p resolve_nonneg paint_Cons store_def)
qed

lemma has_shape_store: "has_shape h w img \<Longrightarrow> has_shape h w (store p img)"
  unfolding store_def by (rule has_shape_update)

lemma has_shape_paint: "has_shape h w img \<Longrightarrow> has_shape h w (paint ps img)"
  by (induction ps arbitrary: img) (simp_all add: paint_Nil paint_Cons has_shape_store)

lemma store_cell:
  assumes "has_shape h w img" "in_canvas h w (fst p)" "r < h" "c < w"
  shows "store p img ! r ! c = (if fst p = (int r, int c) then snd p else img ! r ! c)"
proof -
  obtain i j v where p: "p = ((i, j), v)" by (metis prod.exhaust)
  from assms(2) p have ij: "0 \<le> i" "i < int h" "0 \<le> j" "j < int w"
    by (simp_all add: in_canvas_def)
  have lr: "length img = h" using assms(1) by (simp add: has_shape_def)
  have lc: "length (img ! nat i) = w"
    using has_shape_nth[OF assms(1), of "nat i"] ij by simp
  show ?thesis
    using assms(3,4) ij lr lc by (auto simp: p store_def nth_list_update)
qed

lemma paint_cell:
  "has_shape h w img \<Longrightarrow> list_all (in_canvas h w) (map fst ps) \<Longrightarrow> r < h \<Longrightarrow> c < w \<Longrightarrow>
   paint ps img ! r ! c =
     (case last_write ps (int r, int c) of Some v \<Rightarrow> v | None \<Rightarrow> img ! r ! c)"
proof (induction ps arbitrary: img)
  case Nil
  then show ?case by (simp add: paint_Nil last_write_def)
next
  case (Cons p ps)
  have sh: "has_shape h w (store p img)" using Cons.prems(1) by (rule has_shape_store)
  from Cons.prems have rest: "list_all (in_canvas h w) (map fst ps)"
    and here: "in_canvas h w (fst p)" by simp_all
  have "paint (p # ps) img ! r ! c =
      (case last_write ps (int r, int c) of Some v \<Rightarrow> v | None \<Rightarrow> store p img ! r ! c)"
    using Cons.IH[OF sh rest Cons.prems(3,4)] by (simp add: paint_Cons)
  then show ?case
    using store_cell[OF Cons.prems(1) here Cons.prems(3,4)]
    by (simp add: last_write_Cons split: option.splits)
qed

lemma collect_map_Inr_id: "collect (map Inr xs) = Inr xs"
  by (induction xs) simp_all

lemma collect_InrD: "collect rs = Inr xs \<Longrightarrow> rs = map Inr xs"
proof (induction rs arbitrary: xs)
  case Nil
  then show ?case by simp
next
  case (Cons r rs)
  from Cons.prems obtain x ys where "r = Inr x" "collect rs = Inr ys" "xs = x # ys"
    by (simp split: sum.splits)
  with Cons.IH[of ys] show ?case by simp
qed

lemma collect_Inr_iff: "collect rs = Inr xs \<longleftrightarrow> rs = map Inr xs"
  using collect_InrD collect_map_Inr_id by blast

lemma collect_map_Inr:
  "(\<And>x. x \<in> set xs \<Longrightarrow> f x = Inr (g x)) \<Longrightarrow> collect (map f xs) = Inr (map g xs)"
  by (simp add: collect_Inr_iff)

lemma map2_map2:
  "map2 f xs (map2 g xs ys) = map2 (\<lambda>x y. f x (g x y)) xs ys"
proof (induction xs arbitrary: ys)
  case Nil
  then show ?case by simp
next
  case (Cons x xs)
  then show ?case by (cases ys) simp_all
qed

lemma map2_replicate:
  "map2 f xs (replicate (length xs) z) = map (\<lambda>x. f x z) xs"
  by (induction xs) simp_all

text \<open>
  The writes of one iteration of the panel loop on one stack of the batch, and of the
  iterations \<open>ls\<close> in turn.
\<close>

definition panel_writes :: "index_map \<Rightarrow> 'a stack \<Rightarrow> nat \<Rightarrow> ((int \<times> int) \<times> 'a) list" where
  "panel_writes m st l = zip (concat (m ! l)) (concat (st ! l))"

definition writes :: "index_map \<Rightarrow> 'a stack \<Rightarrow> nat list \<Rightarrow> ((int \<times> int) \<times> 'a) list" where
  "writes m st ls = concat (map (panel_writes m st) ls)"

lemma length_concat_shape:
  "map length xs = map length ys \<Longrightarrow> length (concat xs) = length (concat ys)"
  by (simp add: length_concat)

lemma map_fst_panel_writes:
  "map length (st ! l) = map length (m ! l) \<Longrightarrow> map fst (panel_writes m st l) = concat (m ! l)"
  using length_concat_shape[of "st ! l" "m ! l"] by (simp add: panel_writes_def)

lemma assemble_loop_paint:
  assumes "\<forall>l\<in>set ls. l < length m"
    and "\<forall>st\<in>set ss. \<forall>l\<in>set ls. map length (st ! l) = map length (m ! l)"
    and "\<forall>l\<in>set ls. list_all (in_canvas h w) (concat (m ! l))"
    and "length images = length ss"
  shows "assemble_loop h w m ss ls images =
           Inr (map2 (\<lambda>st img. paint (writes m st ls) img) ss images)"
  using assms
proof (induction ls arbitrary: images)
  case Nil
  have "map2 (\<lambda>st img. img) ss images = map snd (zip ss images)"
    by (rule map_cong) auto
  then show ?case using Nil.prems by (simp add: writes_def paint_Nil)
next
  case (Cons l ls)
  have one: "setitem_fancy h w (m ! l) (st ! l) img = Inr (paint (panel_writes m st l) img)"
    if "st \<in> set ss" for st and img :: "'a image"
  proof -
    have sh: "map length (st ! l) = map length (m ! l)" using Cons.prems(2) that by simp
    have "list_all (in_canvas h w) (map fst (panel_writes m st l))"
      using Cons.prems(3) by (simp add: map_fst_panel_writes[OF sh])
    from put_points_paint[OF this] show ?thesis
      by (simp add: setitem_fancy_def sh panel_writes_def)
  qed
  let ?f = "\<lambda>(st, img). setitem_fancy h w (m ! l) (st ! l) img"
  let ?g = "\<lambda>(st, img). paint (panel_writes m st l) img"
  have "\<And>x. x \<in> set (zip ss images) \<Longrightarrow> ?f x = Inr (?g x)"
    using one by (auto dest: set_zip_leftD)
  then have c: "collect (map ?f (zip ss images)) = Inr (map ?g (zip ss images))"
    by (rule collect_map_Inr)
  have len: "length (map ?g (zip ss images)) = length ss"
    using Cons.prems(4) by simp
  have ih: "assemble_loop h w m ss ls (map ?g (zip ss images)) =
      Inr (map2 (\<lambda>st img. paint (writes m st ls) img) ss (map ?g (zip ss images)))"
    using Cons.prems(1,2,3) len by (intro Cons.IH) simp_all
  have w: "writes m st (l # ls) = panel_writes m st l @ writes m st ls" for st :: "'a stack"
    by (simp add: writes_def)
  have "map2 (\<lambda>st img. paint (writes m st ls) img) ss (map ?g (zip ss images)) =
        map2 (\<lambda>st img. paint (writes m st (l # ls)) img) ss images"
    unfolding w paint_append by (rule map2_map2)
  with ih c Cons.prems(1) show ?case by simp
qed


text \<open>
  The coordinate pairs of a map in row-major order, the canvas size that
  \<^verbatim>\<open>assemble_image_stack_batch\<close> computes from them, and the two conditions under which it
  does not raise: non-negative coordinates (with a non-empty map) and a stack with the
  nested lengths of the map. \<open>assembled m st\<close> is the image that the loop then builds from
  the stack \<open>st\<close>.
\<close>

definition entries :: "index_map \<Rightarrow> (int \<times> int) list" where
  "entries m = concat (concat m)"

definition canvas_height :: "index_map \<Rightarrow> nat" where
  "canvas_height m = nat (amax (map fst (entries m)) + 1)"

definition canvas_width :: "index_map \<Rightarrow> nat" where
  "canvas_width m = nat (amax (map snd (entries m)) + 1)"

definition nonneg_map :: "index_map \<Rightarrow> bool" where
  "nonneg_map m = list_all (\<lambda>p. 0 \<le> fst p \<and> 0 \<le> snd p) (entries m)"

definition matches :: "'a stack \<Rightarrow> index_map \<Rightarrow> bool" where
  "matches st m = (map (map length) st = map (map length) m)"

definition blank :: "nat \<Rightarrow> nat \<Rightarrow> 'a::zero image" where
  "blank h w = replicate h (replicate w 0)"

definition assembled :: "index_map \<Rightarrow> 'a::zero stack \<Rightarrow> 'a image" where
  "assembled m st =
     paint (writes m st [0..<length m]) (blank (canvas_height m) (canvas_width m))"

lemma fold_max_ge_init: "(a::'a::linorder) \<le> fold max ys a"
proof (induction ys arbitrary: a)
  case Nil
  then show ?case by simp
next
  case (Cons y ys)
  have "a \<le> max y a" by simp
  also have "\<dots> \<le> fold max ys (max y a)" by (rule Cons.IH)
  finally show ?case by simp
qed

lemma fold_max_ge_elem: "y \<in> set ys \<Longrightarrow> (y::'a::linorder) \<le> fold max ys a"
proof (induction ys arbitrary: a)
  case Nil
  then show ?case by simp
next
  case (Cons z zs)
  show ?case
  proof (cases "y = z")
    case True
    have "y \<le> max z a" using True by simp
    also have "\<dots> \<le> fold max zs (max z a)" by (rule fold_max_ge_init)
    finally show ?thesis by simp
  next
    case False
    with Cons.prems have "y \<in> set zs" by simp
    from Cons.IH[OF this] show ?thesis by simp
  qed
qed

lemma amax_ge: "x \<in> set xs \<Longrightarrow> x \<le> amax xs"
  by (cases xs) (auto simp: fold_max_ge_init fold_max_ge_elem)

lemma entries_in_canvas:
  assumes "nonneg_map m"
  shows "list_all (in_canvas (canvas_height m) (canvas_width m)) (entries m)"
proof -
  have "in_canvas (canvas_height m) (canvas_width m) p" if "p \<in> set (entries m)" for p
  proof -
    from that have "fst p \<le> amax (map fst (entries m))" "snd p \<le> amax (map snd (entries m))"
      by (auto intro!: amax_ge)
    moreover from assms that have "0 \<le> fst p" "0 \<le> snd p"
      by (auto simp: nonneg_map_def list_all_iff)
    ultimately show ?thesis
      by (simp add: in_canvas_def canvas_height_def canvas_width_def)
  qed
  then show ?thesis by (simp add: list_all_iff)
qed

lemma panel_in_canvas:
  assumes "nonneg_map m" "l < length m"
  shows "list_all (in_canvas (canvas_height m) (canvas_width m)) (concat (m ! l))"
proof -
  have "set (concat (m ! l)) \<subseteq> set (entries m)"
    using assms(2) by (auto simp: entries_def) (metis nth_mem)
  with entries_in_canvas[OF assms(1)] show ?thesis by (auto simp: list_all_iff)
qed

lemma matches_length: "matches st m \<Longrightarrow> length st = length m"
  unfolding matches_def by (metis length_map)

lemma matches_panel: "matches st m \<Longrightarrow> l < length m \<Longrightarrow> map length (st ! l) = map length (m ! l)"
  unfolding matches_def by (metis length_map nth_map)

lemma assemble_eq:
  fixes X :: "'a::zero stack_arg"
  assumes ne: "entries m \<noteq> []" and nn: "nonneg_map m"
    and ma: "list_all (\<lambda>st. matches st m) (expand_stack X)"
  shows "assemble_image_stack_batch X m =
           Inr (squeeze_images (map (assembled m) (expand_stack X)))"
proof -
  let ?ss = "expand_stack X"
  let ?h = "canvas_height m" and ?w = "canvas_width m"
  obtain p where p: "p \<in> set (entries m)" using ne by (cases "entries m") auto
  with nn have "0 \<le> fst p" "0 \<le> snd p" by (auto simp: nonneg_map_def list_all_iff)
  moreover from p have "fst p \<le> amax (map fst (entries m))" "snd p \<le> amax (map snd (entries m))"
    by (auto intro!: amax_ge)
  ultimately have pos: "\<not> amax (map fst (entries m)) + 1 < 0" "\<not> amax (map snd (entries m)) + 1 < 0"
    by simp_all
  let ?pn = "(case ?ss of [] \<Rightarrow> 0 | s # _ \<Rightarrow> length s)"
  have loop: "assemble_loop ?h ?w m ?ss [0..<?pn] (replicate (length ?ss) (blank ?h ?w)) =
      Inr (map (assembled m) ?ss)"
  proof (cases ?ss)
    case Nil
    then show ?thesis by simp
  next
    case (Cons s rest)
    with ma have "length s = length m" by (simp add: matches_length)
    with Cons have pn: "?pn = length m" by simp
    have "assemble_loop ?h ?w m ?ss [0..<length m] (replicate (length ?ss) (blank ?h ?w)) =
       Inr (map2 (\<lambda>st img. paint (writes m st [0..<length m]) img) ?ss
              (replicate (length ?ss) (blank ?h ?w)))"
    proof (rule assemble_loop_paint)
      show "\<forall>l\<in>set [0..<length m]. l < length m" by simp
      show "\<forall>st\<in>set ?ss. \<forall>l\<in>set [0..<length m]. map length (st ! l) = map length (m ! l)"
        using ma by (simp add: list_all_iff matches_panel)
      show "\<forall>l\<in>set [0..<length m]. list_all (in_canvas ?h ?w) (concat (m ! l))"
        using nn by (simp add: panel_in_canvas)
      show "length (replicate (length ?ss) (blank ?h ?w)) = length ?ss" by simp
    qed
    then show ?thesis unfolding pn by (simp add: map2_replicate assembled_def)
  qed
  show ?thesis
    using ne pos loop
    by (simp add: assemble_image_stack_batch_def Let_def entries_def canvas_height_def
        canvas_width_def blank_def)
qed


lemma zip_concat_mem:
  "map length vs = map length ks \<Longrightarrow>
   (k, v) \<in> set (zip (concat ks) (concat vs)) \<longleftrightarrow>
   (\<exists>f s. f < length ks \<and> s < length (ks ! f) \<and> ks ! f ! s = k \<and> vs ! f ! s = v)"
proof (induction ks arbitrary: vs)
  case Nil
  then show ?case by simp
next
  case (Cons a ks)
  from Cons.prems obtain b vs' where vs: "vs = b # vs'" and la: "length b = length a"
    and rest: "map length vs' = map length ks"
    by (cases vs) auto
  have z: "zip (concat (a # ks)) (concat vs) = zip a b @ zip (concat ks) (concat vs')"
    using la by (simp add: vs)
  have here: "(k, v) \<in> set (zip a b) \<longleftrightarrow> (\<exists>s. s < length a \<and> a ! s = k \<and> b ! s = v)"
    using la by (auto simp: set_zip)
  have "(\<exists>f s. f < length (a # ks) \<and> s < length ((a # ks) ! f) \<and> (a # ks) ! f ! s = k \<and> vs ! f ! s = v)
      \<longleftrightarrow> (\<exists>s. s < length a \<and> a ! s = k \<and> b ! s = v) \<or>
          (\<exists>f s. f < length ks \<and> s < length (ks ! f) \<and> ks ! f ! s = k \<and> vs' ! f ! s = v)"
    (is "?L \<longleftrightarrow> ?A \<or> ?B")
  proof
    assume ?L
    then obtain f s where fs: "f < length (a # ks)" "s < length ((a # ks) ! f)"
      "(a # ks) ! f ! s = k" "vs ! f ! s = v" by blast
    show "?A \<or> ?B"
    proof (cases f)
      case 0
      with fs show ?thesis by (auto simp: vs)
    next
      case (Suc f')
      with fs have "f' < length ks \<and> s < length (ks ! f') \<and> ks ! f' ! s = k \<and> vs' ! f' ! s = v"
        by (simp add: vs)
      then show ?thesis by blast
    qed
  next
    assume "?A \<or> ?B"
    then show ?L
    proof
      assume ?A
      then obtain s where "s < length a \<and> a ! s = k \<and> b ! s = v" by blast
      then have "0 < length (a # ks) \<and> s < length ((a # ks) ! 0) \<and> (a # ks) ! 0 ! s = k \<and> vs ! 0 ! s = v"
        by (simp add: vs)
      then show ?L by blast
    next
      assume ?B
      then obtain f s where "f < length ks \<and> s < length (ks ! f) \<and> ks ! f ! s = k \<and> vs' ! f ! s = v"
        by blast
      then have "Suc f < length (a # ks) \<and> s < length ((a # ks) ! Suc f) \<and>
          (a # ks) ! Suc f ! s = k \<and> vs ! Suc f ! s = v"
        by (simp add: vs)
      then show ?L by blast
    qed
  qed
  then show ?case
    using Cons.IH[OF rest] here by (simp only: z set_append Un_iff)
qed

lemma panel_writes_mem:
  "matches st m \<Longrightarrow> p < length m \<Longrightarrow>
   (k, v) \<in> set (panel_writes m st p) \<longleftrightarrow>
   (\<exists>f s. f < length (m ! p) \<and> s < length (m ! p ! f) \<and> m ! p ! f ! s = k \<and> st ! p ! f ! s = v)"
  unfolding panel_writes_def by (rule zip_concat_mem) (rule matches_panel)

lemma writes_mem:
  "(k, v) \<in> set (writes m st ls) \<longleftrightarrow> (\<exists>l\<in>set ls. (k, v) \<in> set (panel_writes m st l))"
  by (auto simp: writes_def)

lemma map_fst_writes:
  "matches st m \<Longrightarrow> \<forall>l\<in>set ls. l < length m \<Longrightarrow>
   map fst (writes m st ls) = concat (map (\<lambda>l. concat (m ! l)) ls)"
  by (induction ls) (simp_all add: writes_def map_fst_panel_writes matches_panel)

lemma map_fst_writes_all:
  assumes "matches st m"
  shows "map fst (writes m st [0..<length m]) = entries m"
proof -
  have "map (\<lambda>l. concat (m ! l)) [0..<length m] = map concat m"
    by (rule nth_equalityI) simp_all
  moreover have "concat (map concat m) = concat (concat m)"
    by (induction m) simp_all
  ultimately show ?thesis
    using map_fst_writes[OF assms, of "[0..<length m]"] by (simp add: entries_def)
qed

lemma has_shape_blank: "has_shape h w (blank h w)"
  unfolding blank_def by (rule has_shape_zeros)

lemma has_shape_assembled:
  "has_shape (canvas_height m) (canvas_width m) (assembled m st)"
  unfolding assembled_def by (rule has_shape_paint) (rule has_shape_blank)

lemma assembled_cell:
  fixes st :: "'a::zero stack"
  assumes "nonneg_map m" "matches st m" "r < canvas_height m" "c < canvas_width m"
  shows "assembled m st ! r ! c =
    (case last_write (writes m st [0..<length m]) (int r, int c) of Some v \<Rightarrow> v | None \<Rightarrow> 0)"
proof -
  have "list_all (in_canvas (canvas_height m) (canvas_width m))
          (map fst (writes m st [0..<length m]))"
    using assms(1,2) by (simp add: map_fst_writes_all entries_in_canvas)
  from paint_cell[OF has_shape_blank this assms(3,4)]
  have "assembled m st ! r ! c =
    (case last_write (writes m st [0..<length m]) (int r, int c) of
       Some v \<Rightarrow> v | None \<Rightarrow> blank (canvas_height m) (canvas_width m) ! r ! c)"
    by (simp add: assembled_def)
  moreover have "blank (canvas_height m) (canvas_width m) ! r ! c = (0::'a)"
    using assms(3,4) by (simp add: blank_def)
  ultimately show ?thesis by (simp split: option.splits)
qed


text \<open>
  The read \<^verbatim>\<open>img[I, J]\<close> without the bounds check.
\<close>

definition gather :: "'a image \<Rightarrow> (int \<times> int) panel \<Rightarrow> 'a panel" where
  "gather img idx = map (map (\<lambda>p. img ! nat (fst p) ! nat (snd p))) idx"

lemma getitem_point_in:
  assumes "has_shape h w img" "in_canvas h w p"
  shows "getitem_point img p = Inr (img ! nat (fst p) ! nat (snd p))"
proof -
  from assms(2) have b: "0 \<le> fst p" "fst p < int h" "0 \<le> snd p" "snd p < int w"
    by (simp_all add: in_canvas_def)
  have lr: "length img = h" using assms(1) by (simp add: has_shape_def)
  have lc: "length (img ! nat (fst p)) = w"
    using has_shape_nth[OF assms(1), of "nat (fst p)"] b by simp
  show ?thesis
    using b by (simp add: getitem_point_def lr resolve_nonneg lc)
qed

lemma getitem_fancy_gather:
  assumes "has_shape h w img" "list_all (in_canvas h w) (concat idx)"
  shows "getitem_fancy img idx = Inr (gather img idx)"
proof -
  have row: "collect (map (getitem_point img) row) =
      Inr (map (\<lambda>p. img ! nat (fst p) ! nat (snd p)) row)" if "row \<in> set idx" for row
  proof (rule collect_map_Inr)
    fix p assume "p \<in> set row"
    with that assms(2) have "in_canvas h w p" by (auto simp: list_all_iff)
    then show "getitem_point img p = Inr (img ! nat (fst p) ! nat (snd p))"
      by (rule getitem_point_in[OF assms(1)])
  qed
  show ?thesis
    unfolding getitem_fancy_def gather_def by (rule collect_map_Inr) (rule row)
qed

lemma map2_map2_map:
  "map2 F xs (map2 H ys (map k xs)) = map2 (\<lambda>x y. F x (H y (k x))) xs ys"
proof (induction xs arbitrary: ys)
  case Nil
  then show ?case by simp
next
  case (Cons x xs)
  then show ?case by (cases ys) simp_all
qed

lemma disassemble_loop_fold:
  assumes "\<And>p img. p \<in> set ps \<Longrightarrow> img \<in> set images \<Longrightarrow> getitem_fancy img (m ! p) = Inr (G img p)"
    and "length acc = length images"
  shows "disassemble_loop m images ps acc =
     Inr (map2 (\<lambda>img st. fold (\<lambda>p st. st[p := G img p]) ps st) images acc)"
  using assms
proof (induction ps arbitrary: acc)
  case Nil
  have "map2 (\<lambda>img st. st) images acc = map snd (zip images acc)"
    by (rule map_cong) auto
  then show ?case using Nil.prems(2) by simp
next
  case (Cons p ps)
  have c: "collect (map (\<lambda>img. getitem_fancy img (m ! p)) images) = Inr (map (\<lambda>img. G img p) images)"
    by (rule collect_map_Inr) (simp add: Cons.prems(1))
  let ?acc = "map2 (\<lambda>st g. st[p := g]) acc (map (\<lambda>img. G img p) images)"
  have len: "length ?acc = length images" using Cons.prems(2) by simp
  have ih: "disassemble_loop m images ps ?acc =
     Inr (map2 (\<lambda>img st. fold (\<lambda>p st. st[p := G img p]) ps st) images ?acc)"
    using len by (intro Cons.IH) (simp_all add: Cons.prems(1))
  show ?case
    by (simp add: c ih map2_map2_map)
qed

lemma fold_update_prefix:
  "n \<le> length st \<Longrightarrow> fold (\<lambda>p st. st[p := g p]) [0..<n] st = map g [0..<n] @ drop n st"
proof (induction n)
  case 0
  then show ?case by simp
next
  case (Suc n)
  then have "fold (\<lambda>p st. st[p := g p]) [0..<Suc n] st = (map g [0..<n] @ drop n st)[n := g n]"
    by simp
  also have "\<dots> = map g [0..<n] @ (drop n st)[0 := g n]"
    by (simp add: list_update_append)
  also have "(drop n st)[0 := g n] = g n # drop (Suc n) st"
    using Suc.prems by (simp add: Cons_nth_drop_Suc[symmetric])
  finally show ?case by simp
qed

lemma fold_update_all:
  "length st = n \<Longrightarrow> fold (\<lambda>p st. st[p := g p]) [0..<n] st = map g [0..<n]"
  using fold_update_prefix[of n st g] by simp

text \<open>
  The stack that \<^verbatim>\<open>disassemble_image_stack_batch\<close> builds from one image.
\<close>

definition unassembled :: "index_map \<Rightarrow> 'a image \<Rightarrow> 'a stack" where
  "unassembled m img = map (gather img) m"

lemma disassemble_eq:
  fixes A :: "'a::zero image_arg"
  assumes "list_all (has_shape h w) (expand_image A)" "list_all (in_canvas h w) (entries m)"
  shows "disassemble_image_stack_batch A m =
     Inr (squeeze_stacks (map (unassembled m) (expand_image A)))"
proof -
  let ?imgs = "expand_image A"
  let ?z = "map (map (map (\<lambda>_. 0::'a))) m"
  have g: "getitem_fancy img (m ! p) = Inr (gather img (m ! p))"
    if "p \<in> set [0..<length m]" "img \<in> set ?imgs" for p img
  proof -
    have "set (concat (m ! p)) \<subseteq> set (entries m)"
      using that(1) by (auto simp: entries_def) (metis nth_mem)
    with assms(2) have "list_all (in_canvas h w) (concat (m ! p))"
      by (auto simp: list_all_iff)
    moreover from assms(1) that(2) have "has_shape h w img" by (simp add: list_all_iff)
    ultimately show ?thesis by (rule getitem_fancy_gather[rotated])
  qed
  have "disassemble_loop m ?imgs [0..<length m] (replicate (length ?imgs) ?z) =
     Inr (map2 (\<lambda>img st. fold (\<lambda>p st. st[p := gather img (m ! p)]) [0..<length m] st) ?imgs
            (replicate (length ?imgs) ?z))"
    by (rule disassemble_loop_fold) (simp_all add: g)
  moreover have "map2 (\<lambda>img st. fold (\<lambda>p st. st[p := gather img (m ! p)]) [0..<length m] st) ?imgs
            (replicate (length ?imgs) ?z) = map (unassembled m) ?imgs"
  proof -
    have "fold (\<lambda>p st. st[p := gather img (m ! p)]) [0..<length m] ?z = unassembled m img" for img :: "'a image"
    proof -
      have "fold (\<lambda>p st. st[p := gather img (m ! p)]) [0..<length m] ?z =
          map (\<lambda>p. gather img (m ! p)) [0..<length m]"
        by (rule fold_update_all) simp
      also have "\<dots> = map (gather img) m" by (rule nth_equalityI) simp_all
      finally show ?thesis by (simp add: unassembled_def)
    qed
    then show ?thesis by (simp add: map2_replicate)
  qed
  ultimately show ?thesis
    by (simp add: disassemble_image_stack_batch_def Let_def)
qed


text \<open>
  A source location \<open>(panel, fast, slow)\<close> of the map.
\<close>

definition source :: "index_map \<Rightarrow> nat \<times> nat \<times> nat \<Rightarrow> bool" where
  "source m loc =
     (case loc of (p, f, s) \<Rightarrow> p < length m \<and> f < length (m ! p) \<and> s < length (m ! p ! f))"

lemma source_entry:
  assumes "source m (p, f, s)"
  shows "m ! p ! f ! s \<in> set (entries m)"
proof -
  from assms have "m ! p \<in> set m" "m ! p ! f \<in> set (m ! p)" "m ! p ! f ! s \<in> set (m ! p ! f)"
    by (simp_all add: source_def)
  then have "m ! p ! f ! s \<in> set (concat (m ! p))" by auto
  with \<open>m ! p \<in> set m\<close> show ?thesis unfolding entries_def by auto
qed

lemma source_write:
  assumes "matches st m" "source m (p, f, s)"
  shows "(m ! p ! f ! s, st ! p ! f ! s) \<in> set (writes m st [0..<length m])"
proof -
  from assms(2) have p: "p < length m" and fs: "f < length (m ! p)" "s < length (m ! p ! f)"
    by (simp_all add: source_def)
  have "(m ! p ! f ! s, st ! p ! f ! s) \<in> set (panel_writes m st p)"
    using fs by (subst panel_writes_mem[OF assms(1) p]) blast
  with p show ?thesis by (subst writes_mem) auto
qed

lemma write_source:
  assumes "matches st m" "(k, v) \<in> set (writes m st [0..<length m])"
  shows "\<exists>p f s. source m (p, f, s) \<and> m ! p ! f ! s = k \<and> st ! p ! f ! s = v"
proof -
  from assms(2) obtain p where p: "p < length m" and "(k, v) \<in> set (panel_writes m st p)"
    by (auto simp: writes_mem)
  then obtain f s where "f < length (m ! p) \<and> s < length (m ! p ! f) \<and>
      m ! p ! f ! s = k \<and> st ! p ! f ! s = v"
    using panel_writes_mem[OF assms(1) p, of k v] by blast
  with p have "source m (p, f, s) \<and> m ! p ! f ! s = k \<and> st ! p ! f ! s = v"
    by (simp add: source_def)
  then show ?thesis by blast
qed

lemma in_canvas_cell:
  "in_canvas h w k \<Longrightarrow> nat (fst k) < h \<and> nat (snd k) < w \<and> (int (nat (fst k)), int (nat (snd k))) = k"
  by (cases k) (auto simp: in_canvas_def)

lemma assembled_at:
  fixes st :: "'a::zero stack"
  assumes nn: "nonneg_map m" and ma: "matches st m" and k: "k \<in> set (entries m)"
    and one: "\<And>v'. (k, v') \<in> set (writes m st [0..<length m]) \<Longrightarrow> v' = v"
  shows "getitem_point (assembled m st) k = Inr v"
proof -
  let ?h = "canvas_height m" and ?w = "canvas_width m"
  let ?ws = "writes m st [0..<length m]"
  from entries_in_canvas[OF nn] k have ic: "in_canvas ?h ?w k" by (simp add: list_all_iff)
  note cell = in_canvas_cell[OF ic]
  have "k \<in> fst ` set ?ws"
    using k map_fst_writes_all[OF ma] by (metis set_map)
  then obtain v' where lw: "last_write ?ws k = Some v'"
    using last_write_None[of ?ws k] by (cases "last_write ?ws k") auto
  from last_write_SomeD[OF lw] one have "v' = v" by blast
  with lw cell assembled_cell[OF nn ma, of "nat (fst k)" "nat (snd k)"]
  have "assembled m st ! nat (fst k) ! nat (snd k) = v" by simp
  then show ?thesis
    using getitem_point_in[OF has_shape_assembled ic, of st] by simp
qed

lemma distinct_writes_unique:
  assumes "distinct (map fst ws)" "(k, v) \<in> set ws" "(k, v') \<in> set ws"
  shows "v' = v"
  using assms by (metis map_of_is_SomeI option.inject)

lemma gather_assembled:
  fixes st :: "'a::zero stack"
  assumes nn: "nonneg_map m" and di: "distinct (entries m)" and ma: "matches st m"
  shows "unassembled m (assembled m st) = st"
proof -
  let ?A = "assembled m st"
  let ?ws = "writes m st [0..<length m]"
  have dws: "distinct (map fst ?ws)" using di by (simp add: map_fst_writes_all[OF ma])
  have cellv: "?A ! nat (fst (m ! p ! f ! s)) ! nat (snd (m ! p ! f ! s)) = st ! p ! f ! s"
    if "source m (p, f, s)" for p f s
  proof -
    let ?k = "m ! p ! f ! s"
    have k: "?k \<in> set (entries m)" by (rule source_entry[OF that])
    have w: "(?k, st ! p ! f ! s) \<in> set ?ws" by (rule source_write[OF ma that])
    have "getitem_point ?A ?k = Inr (st ! p ! f ! s)"
      by (rule assembled_at[OF nn ma k]) (rule distinct_writes_unique[OF dws w])
    moreover from entries_in_canvas[OF nn] k
    have "in_canvas (canvas_height m) (canvas_width m) ?k" by (simp add: list_all_iff)
    ultimately show ?thesis
      using getitem_point_in[OF has_shape_assembled, of m ?k st] by simp
  qed
  have lp: "length st = length m" by (rule matches_length[OF ma])
  have lf: "length (st ! p) = length (m ! p)" if "p < length m" for p
    using matches_panel[OF ma that] by (metis length_map)
  have ls: "length (st ! p ! f) = length (m ! p ! f)" if "p < length m" "f < length (m ! p)" for p f
    using matches_panel[OF ma that(1)] that(2) by (metis nth_map lf[OF that(1)])
  show ?thesis
    unfolding unassembled_def gather_def
  proof (intro nth_equalityI)
    show "length (map (map (map (\<lambda>p. ?A ! nat (fst p) ! nat (snd p)))) m) = length st"
      by (simp add: lp)
  next
    fix p assume "p < length (map (map (map (\<lambda>p. ?A ! nat (fst p) ! nat (snd p)))) m)"
    then have p: "p < length m" by simp
    show "length (map (map (map (\<lambda>p. ?A ! nat (fst p) ! nat (snd p)))) m ! p) = length (st ! p)"
      using p by (simp add: lf)
    fix f assume "f < length (map (map (map (\<lambda>p. ?A ! nat (fst p) ! nat (snd p)))) m ! p)"
    then have f: "f < length (m ! p)" using p by simp
    show "length (map (map (map (\<lambda>p. ?A ! nat (fst p) ! nat (snd p)))) m ! p ! f) = length (st ! p ! f)"
      using p f by (simp add: ls)
    fix s assume "s < length (map (map (map (\<lambda>p. ?A ! nat (fst p) ! nat (snd p)))) m ! p ! f)"
    then have s: "s < length (m ! p ! f)" using p f by simp
    have "source m (p, f, s)" using p f s by (simp add: source_def)
    from cellv[OF this]
    show "map (map (map (\<lambda>p. ?A ! nat (fst p) ! nat (snd p)))) m ! p ! f ! s = st ! p ! f ! s"
      using p f s by simp
  qed
qed

subsection \<open>Round trip\<close>

lemma fold_max_mem: "fold max ys (a::'a::linorder) \<in> insert a (set ys)"
proof (induction ys arbitrary: a)
  case Nil
  then show ?case by simp
next
  case (Cons y ys)
  have "fold max ys (max y a) \<in> insert (max y a) (set ys)" by (rule Cons.IH)
  moreover have "max y a = y \<or> max y a = a" by (simp add: max_def)
  ultimately show ?case by auto
qed

lemma amax_eq_Max: "xs \<noteq> [] \<Longrightarrow> amax xs = Max (set xs)"
proof -
  assume ne: "xs \<noteq> []"
  then obtain y ys where xs: "xs = y # ys" by (cases xs) auto
  have "amax xs \<in> set xs" using fold_max_mem[of ys y] by (simp add: xs)
  then show ?thesis
    by (intro Max_eqI[symmetric]) (simp_all add: amax_ge)
qed

lemma expand_squeeze_images: "expand_image (squeeze_images imgs) = imgs"
  by (cases imgs) (auto simp: squeeze_images_def)

lemma squeeze_expand_stack:
  "squeeze_stacks (expand_stack X) =
     (case X of Stack3 s \<Rightarrow> Stack3 s
      | Stack4 ss \<Rightarrow> if length ss = 1 then Stack3 (ss ! 0) else Stack4 ss)"
  by (cases X) (simp_all add: squeeze_stacks_def)

text \<open>
  \<^verbatim>\<open>disassemble(assemble(X, M), M)\<close>; a map that \<^verbatim>\<open>assemble\<close> accepts; an argument whose
  stacks all have the panel geometry of the map.
\<close>

definition roundtrip :: "'a::zero stack_arg \<Rightarrow> index_map \<Rightarrow> error + 'a stack_arg" where
  "roundtrip X m =
     (case assemble_image_stack_batch X m of
        Inl e \<Rightarrow> Inl e
      | Inr A \<Rightarrow> disassemble_image_stack_batch A m)"

definition valid_map :: "index_map \<Rightarrow> bool" where
  "valid_map m = (entries m \<noteq> [] \<and> nonneg_map m)"

definition compatible :: "'a stack_arg \<Rightarrow> index_map \<Rightarrow> bool" where
  "compatible X m = list_all (\<lambda>st. matches st m) (expand_stack X)"

text \<open>
  Claim C1 (as amended). For a pixel index map with at least one pixel, non-negative
  coordinates and no two entries equal, and a stack argument whose panel geometry matches
  the map, disassembling the assembled image returns the input values exactly: the same
  array for a 3-dimensional stack and for a batch whose size is not 1, and the single
  stack of the batch, as a 3-dimensional array, for a 4-dimensional batch of size 1 (both
  routines squeeze a leading axis of length 1).
\<close>

theorem roundtrip_squeezed:
  fixes X :: "'a::zero stack_arg"
  assumes "valid_map m" "distinct (entries m)" "compatible X m"
  shows "roundtrip X m =
     Inr (case X of Stack3 s \<Rightarrow> Stack3 s
          | Stack4 ss \<Rightarrow> if length ss = 1 then Stack3 (ss ! 0) else Stack4 ss)"
proof -
  let ?ss = "expand_stack X"
  let ?h = "canvas_height m" and ?w = "canvas_width m"
  from assms(1) have ne: "entries m \<noteq> []" and nn: "nonneg_map m" by (simp_all add: valid_map_def)
  from assms(3) have ma: "list_all (\<lambda>st. matches st m) ?ss" by (simp add: compatible_def)
  have a: "assemble_image_stack_batch X m = Inr (squeeze_images (map (assembled m) ?ss))"
    by (rule assemble_eq[OF ne nn ma])
  have "list_all (has_shape ?h ?w) (expand_image (squeeze_images (map (assembled m) ?ss)))"
    by (simp add: expand_squeeze_images list_all_iff has_shape_assembled)
  from disassemble_eq[OF this entries_in_canvas[OF nn]]
  have d: "disassemble_image_stack_batch (squeeze_images (map (assembled m) ?ss)) m =
      Inr (squeeze_stacks (map (unassembled m) (map (assembled m) ?ss)))"
    by (simp add: expand_squeeze_images)
  have "map (unassembled m) (map (assembled m) ?ss) = map (\<lambda>st. st) ?ss"
    unfolding map_map using ma
    by (intro map_cong) (simp_all add: list_all_iff gather_assembled[OF nn assms(2)])
  with a d show ?thesis
    by (simp add: roundtrip_def squeeze_expand_stack)
qed

theorem roundtrip_squeezed_witness:
  "valid_map [[[(0, 0), (0, 1)]], [[(1, 1), (1, 0)]]] \<and>
   distinct (entries [[[(0, 0), (0, 1)]], [[(1, 1), (1, 0)]]]) \<and>
   compatible (Stack4 [[[[1::int, 2]], [[3, 4]]], [[[5, 6]], [[7, 8]]]])
     [[[(0, 0), (0, 1)]], [[(1, 1), (1, 0)]]] \<and>
   roundtrip (Stack4 [[[[1::int, 2]], [[3, 4]]], [[[5, 6]], [[7, 8]]]])
     [[[(0, 0), (0, 1)]], [[(1, 1), (1, 0)]]] =
     Inr (Stack4 [[[[1, 2]], [[3, 4]]], [[[5, 6]], [[7, 8]]]])"
proof -
  let ?m = "[[[(0, 0), (0, 1)]], [[(1, 1), (1, 0)]]] :: index_map"
  let ?X = "Stack4 [[[[1::int, 2]], [[3, 4]]], [[[5, 6]], [[7, 8]]]]"
  have v: "valid_map ?m" by (simp add: valid_map_def entries_def nonneg_map_def)
  have d: "distinct (entries ?m)" by (simp add: entries_def)
  have c: "compatible ?X ?m" by (simp add: compatible_def matches_def)
  from roundtrip_squeezed[OF v d c] v d c show ?thesis by simp
qed

text \<open>
  The round trip of a 4-dimensional batch of one stack is not the 4-dimensional input.
\<close>

theorem roundtrip_batch_of_one_counterexample:
  "valid_map [[[(0, 0)]]] \<and> distinct (entries [[[(0, 0)]]]) \<and>
   compatible (Stack4 [[[[1::int]]]]) [[[(0, 0)]]] \<and>
   roundtrip (Stack4 [[[[1::int]]]]) [[[(0, 0)]]] = Inr (Stack3 [[[1]]]) \<and>
   roundtrip (Stack4 [[[[1::int]]]]) [[[(0, 0)]]] \<noteq> Inr (Stack4 [[[[1]]]])"
  by code_simp

subsection \<open>Collisions and unaddressed cells\<close>

lemma count_one_unique:
  "count_list (map fst ws) k = 1 \<Longrightarrow> (k, v) \<in> set ws \<Longrightarrow> (k, v') \<in> set ws \<Longrightarrow> v' = v"
proof (induction ws)
  case Nil
  then show ?case by simp
next
  case (Cons w ws)
  show ?case
  proof (cases "fst w = k")
    case True
    with Cons.prems(1) have "count_list (map fst ws) k = 0" by simp
    then have "k \<notin> fst ` set ws" by (simp add: count_list_0_iff)
    with Cons.prems(2,3) True show ?thesis by (cases w) force
  next
    case False
    with Cons.prems show ?thesis by (intro Cons.IH) auto
  qed
qed

lemma writes_append: "writes m st (xs @ ys) = writes m st xs @ writes m st ys"
  by (simp add: writes_def)

lemma assembled_top_panel:
  fixes st :: "'a::zero stack"
  assumes nn: "nonneg_map m" and ma: "matches st m" and p: "p < length m"
    and t: "t \<in> set (concat (m ! p))"
    and top: "\<forall>q. p < q \<and> q < length m \<longrightarrow> t \<notin> set (concat (m ! q))"
  shows "\<exists>f s. source m (p, f, s) \<and> m ! p ! f ! s = t \<and>
           getitem_point (assembled m st) t = Inr (st ! p ! f ! s)"
proof -
  let ?ws = "writes m st [0..<length m]"
  let ?A = "writes m st [0..<p]" and ?B = "panel_writes m st p"
    and ?C = "writes m st [Suc p..<length m]"
  have "[0..<length m] = [0..<p] @ [p] @ [Suc p..<length m]"
    using p by (metis append_Cons append_Nil le0 le_add_diff_inverse less_imp_le upt_add_eq_append upt_conv_Cons)
  then have split: "?ws = ?A @ ?B @ ?C"
    by (simp add: writes_append) (simp add: writes_def)
  have "map fst ?C = concat (map (\<lambda>l. concat (m ! l)) [Suc p..<length m])"
    by (rule map_fst_writes[OF ma]) simp
  moreover have "t \<notin> set (concat (m ! q))" if "q \<in> set [Suc p..<length m]" for q
  proof -
    from that have "p < q \<and> q < length m" by simp
    with top show ?thesis by blast
  qed
  ultimately have "t \<notin> set (map fst ?C)" by simp
  then have c: "last_write ?C t = None" by (simp add: last_write_None)
  have "map fst ?B = concat (m ! p)"
    by (rule map_fst_panel_writes) (rule matches_panel[OF ma p])
  with t have "t \<in> fst ` set ?B" by (metis set_map)
  then obtain v where b: "last_write ?B t = Some v"
    using last_write_None[of ?B t] by (cases "last_write ?B t") auto
  from last_write_SomeD[OF b] obtain f s where fs: "f < length (m ! p)" "s < length (m ! p ! f)"
    "m ! p ! f ! s = t" "st ! p ! f ! s = v"
    using panel_writes_mem[OF ma p, of t v] by blast
  have lw: "last_write ?ws t = Some v"
    unfolding split by (simp add: last_write_append b c)
  have k: "t \<in> set (entries m)" using t p by (auto simp: entries_def)
  from entries_in_canvas[OF nn] k
  have ic: "in_canvas (canvas_height m) (canvas_width m) t" by (simp add: list_all_iff)
  note cell = in_canvas_cell[OF ic]
  from lw cell assembled_cell[OF nn ma, of "nat (fst t)" "nat (snd t)"]
  have "assembled m st ! nat (fst t) ! nat (snd t) = v" by simp
  then have "getitem_point (assembled m st) t = Inr v"
    using getitem_point_in[OF has_shape_assembled ic, of st] by simp
  with fs p have "source m (p, f, s) \<and> m ! p ! f ! s = t \<and>
      getitem_point (assembled m st) t = Inr (st ! p ! f ! s)"
    by (simp add: source_def)
  then show ?thesis by blast
qed

lemma assembled_sole:
  fixes st :: "'a::zero stack"
  assumes nn: "nonneg_map m" and ma: "matches st m" and src: "source m (p, f, s)"
    and one: "count_list (entries m) (m ! p ! f ! s) = 1"
  shows "getitem_point (assembled m st) (m ! p ! f ! s) = Inr (st ! p ! f ! s)"
proof (rule assembled_at[OF nn ma source_entry[OF src]])
  fix v' assume "(m ! p ! f ! s, v') \<in> set (writes m st [0..<length m])"
  moreover have "count_list (map fst (writes m st [0..<length m])) (m ! p ! f ! s) = 1"
    using one by (simp add: map_fst_writes_all[OF ma])
  ultimately show "v' = st ! p ! f ! s"
    using source_write[OF ma src] by (rule count_one_unique[rotated 2])
qed

lemma assembled_unaddressed:
  fixes st :: "'a::zero stack"
  assumes nn: "nonneg_map m" and ma: "matches st m"
    and r: "r < length (assembled m st)" and c: "c < length (assembled m st ! r)"
    and un: "(int r, int c) \<notin> set (entries m)"
  shows "assembled m st ! r ! c = 0"
proof -
  note sh = has_shape_assembled[of m st]
  from sh r have r': "r < canvas_height m" by (simp add: has_shape_def)
  from has_shape_nth[OF sh r'] c have c': "c < canvas_width m" by simp
  have "(int r, int c) \<notin> fst ` set (writes m st [0..<length m])"
    using un map_fst_writes_all[OF ma] by (metis set_map)
  then have "last_write (writes m st [0..<length m]) (int r, int c) = None"
    by (simp add: last_write_None)
  with assembled_cell[OF nn ma r' c'] show ?thesis by simp
qed

lemma assembled_dims:
  fixes st :: "'a::zero stack"
  assumes "valid_map m"
  shows "int (length (assembled m st)) = Max (fst ` set (entries m)) + 1"
    and "\<forall>row\<in>set (assembled m st). int (length row) = Max (snd ` set (entries m)) + 1"
proof -
  from assms have ne: "entries m \<noteq> []" and nn: "nonneg_map m" by (simp_all add: valid_map_def)
  obtain k where k: "k \<in> set (entries m)" using ne by (cases "entries m") auto
  with nn have "0 \<le> fst k" "0 \<le> snd k" by (auto simp: nonneg_map_def list_all_iff)
  moreover from k have "fst k \<le> amax (map fst (entries m))" "snd k \<le> amax (map snd (entries m))"
    by (auto intro!: amax_ge)
  ultimately have pos: "0 \<le> amax (map fst (entries m))" "0 \<le> amax (map snd (entries m))"
    by simp_all
  have mx: "amax (map fst (entries m)) = Max (fst ` set (entries m))"
    "amax (map snd (entries m)) = Max (snd ` set (entries m))"
    using ne by (simp_all add: amax_eq_Max)
  note sh = has_shape_assembled[of m st]
  show "int (length (assembled m st)) = Max (fst ` set (entries m)) + 1"
    using sh pos mx by (simp add: has_shape_def canvas_height_def)
  show "\<forall>row\<in>set (assembled m st). int (length row) = Max (snd ` set (entries m)) + 1"
    using sh pos mx by (simp add: has_shape_def canvas_width_def list_all_iff)
qed

subsection \<open>Canvas, collisions and the squeeze convention\<close>

lemma assemble_batch:
  fixes X :: "'a::zero stack_arg"
  assumes "valid_map m" "compatible X m"
  shows "assemble_image_stack_batch X m = Inr (squeeze_images (map (assembled m) (expand_stack X)))"
  using assms by (intro assemble_eq) (simp_all add: valid_map_def compatible_def)

text \<open>
  Claim C6 (as amended). For a pixel index map with at least one pixel and non-negative
  coordinates and a stack argument of matching panel geometry, every assembled image has
  height (largest row index of the map) + 1 and width (largest column index) + 1; the cell
  addressed by a map entry whose coordinate pair occurs exactly once in the map holds the
  input value of that source location; every cell that no map entry addresses is zero.
\<close>

theorem assemble_canvas:
  fixes X :: "'a::zero stack_arg"
  assumes "valid_map m" "compatible X m"
  shows "\<exists>imgs. assemble_image_stack_batch X m = Inr (squeeze_images imgs) \<and>
      length imgs = length (expand_stack X) \<and>
      (\<forall>b<length imgs.
         int (length (imgs ! b)) = Max (fst ` set (entries m)) + 1 \<and>
         (\<forall>row\<in>set (imgs ! b). int (length row) = Max (snd ` set (entries m)) + 1) \<and>
         (\<forall>p f s. source m (p, f, s) \<and> count_list (entries m) (m ! p ! f ! s) = 1 \<longrightarrow>
            getitem_point (imgs ! b) (m ! p ! f ! s) = Inr (expand_stack X ! b ! p ! f ! s)) \<and>
         (\<forall>r c. r < length (imgs ! b) \<and> c < length (imgs ! b ! r) \<and>
            (int r, int c) \<notin> set (entries m) \<longrightarrow> imgs ! b ! r ! c = 0))"
proof -
  let ?ss = "expand_stack X"
  let ?imgs = "map (assembled m) ?ss"
  from assms(1) have nn: "nonneg_map m" by (simp add: valid_map_def)
  have each: "int (length (?imgs ! b)) = Max (fst ` set (entries m)) + 1 \<and>
         (\<forall>row\<in>set (?imgs ! b). int (length row) = Max (snd ` set (entries m)) + 1) \<and>
         (\<forall>p f s. source m (p, f, s) \<and> count_list (entries m) (m ! p ! f ! s) = 1 \<longrightarrow>
            getitem_point (?imgs ! b) (m ! p ! f ! s) = Inr (?ss ! b ! p ! f ! s)) \<and>
         (\<forall>r c. r < length (?imgs ! b) \<and> c < length (?imgs ! b ! r) \<and>
            (int r, int c) \<notin> set (entries m) \<longrightarrow> ?imgs ! b ! r ! c = 0)"
    if b: "b < length ?imgs" for b
  proof -
    from b have b': "b < length ?ss" by simp
    then have ma: "matches (?ss ! b) m"
      using assms(2) by (simp add: compatible_def list_all_length)
    have im: "?imgs ! b = assembled m (?ss ! b)" using b' by simp
    show ?thesis
      unfolding im
      using assembled_dims[OF assms(1), of "?ss ! b"] assembled_sole[OF nn ma]
        assembled_unaddressed[OF nn ma]
      by blast
  qed
  have "assemble_image_stack_batch X m = Inr (squeeze_images ?imgs) \<and>
      length ?imgs = length ?ss"
    using assemble_batch[OF assms] by simp
  with each show ?thesis by blast
qed

theorem assemble_canvas_witness:
  "valid_map [[[(0, 0), (0, 2)]], [[(1, 1), (0, 2)]]] \<and>
   compatible (Stack3 [[[1::int, 2]], [[3, 4]]]) [[[(0, 0), (0, 2)]], [[(1, 1), (0, 2)]]] \<and>
   assemble_image_stack_batch (Stack3 [[[1::int, 2]], [[3, 4]]])
     [[[(0, 0), (0, 2)]], [[(1, 1), (0, 2)]]] = Inr (Image2 [[1, 0, 4], [0, 3, 0]]) \<and>
   (\<exists>imgs. assemble_image_stack_batch (Stack3 [[[1::int, 2]], [[3, 4]]])
       [[[(0, 0), (0, 2)]], [[(1, 1), (0, 2)]]] = Inr (squeeze_images imgs) \<and>
      getitem_point (imgs ! 0) (0, 0) = Inr 1 \<and> imgs ! 0 ! 1 ! 0 = 0)"
proof -
  let ?m = "[[[(0, 0), (0, 2)]], [[(1, 1), (0, 2)]]] :: index_map"
  let ?X = "Stack3 [[[1::int, 2]], [[3, 4]]]"
  have v: "valid_map ?m" by (simp add: valid_map_def entries_def nonneg_map_def)
  have c: "compatible ?X ?m" by (simp add: compatible_def matches_def)
  have e: "assemble_image_stack_batch ?X ?m = Inr (Image2 [[1, 0, 4], [0, 3, 0]])"
    by code_simp
  from assemble_canvas[OF v c] obtain imgs where
    a: "assemble_image_stack_batch ?X ?m = Inr (squeeze_images imgs)"
    and l: "length imgs = 1"
    and p: "\<forall>p f s. source ?m (p, f, s) \<and> count_list (entries ?m) (?m ! p ! f ! s) = 1 \<longrightarrow>
            getitem_point (imgs ! 0) (?m ! p ! f ! s) = Inr (expand_stack ?X ! 0 ! p ! f ! s)"
    and z: "\<forall>r c. r < length (imgs ! 0) \<and> c < length (imgs ! 0 ! r) \<and>
            (int r, int c) \<notin> set (entries ?m) \<longrightarrow> imgs ! 0 ! r ! c = 0"
    by auto
  from a e l have i: "imgs ! 0 = [[1, 0, 4], [0, 3, 0]]"
    by (simp add: squeeze_images_def)
  have "source ?m (0, 0, 0) \<and> count_list (entries ?m) (?m ! 0 ! 0 ! 0) = 1"
    by (simp add: source_def entries_def)
  with p have g: "getitem_point (imgs ! 0) (?m ! 0 ! 0 ! 0) = Inr (expand_stack ?X ! 0 ! 0 ! 0 ! 0)"
    by blast
  have "1 < length (imgs ! 0) \<and> 0 < length (imgs ! 0 ! 1) \<and> (int 1, int 0) \<notin> set (entries ?m)"
    by (simp add: i entries_def)
  with z have z0: "imgs ! 0 ! 1 ! 0 = 0" by blast
  from g have g0: "getitem_point (imgs ! 0) (0, 0) = Inr 1" by simp
  from a g0 z0 have "\<exists>imgs. assemble_image_stack_batch ?X ?m = Inr (squeeze_images imgs) \<and>
      getitem_point (imgs ! 0) (0, 0) = Inr 1 \<and> imgs ! 0 ! 1 ! 0 = 0"
    by blast
  with v c e show ?thesis by (intro conjI)
qed

text \<open>
  Two panels mapped to the same cell: the cell holds the value of the second panel, not the
  value of source location \<open>(0, 0, 0)\<close>.
\<close>

theorem assemble_collision_counterexample:
  "valid_map [[[(0, 0)]], [[(0, 0)]]] \<and>
   compatible (Stack3 [[[1::int]], [[2]]]) [[[(0, 0)]], [[(0, 0)]]] \<and>
   assemble_image_stack_batch (Stack3 [[[1::int]], [[2]]]) [[[(0, 0)]], [[(0, 0)]]] =
     Inr (Image2 [[2]]) \<and>
   getitem_point [[2::int]] ([[[(0, 0)]], [[(0, 0)]]] ! 0 ! 0 ! 0) \<noteq>
     Inr (expand_stack (Stack3 [[[1::int]], [[2]]]) ! 0 ! 0 ! 0 ! 0)"
  by code_simp


text \<open>
  Claim C9. When several panels map a source pixel to the coordinate \<open>t\<close> and \<open>p\<close> is the
  largest panel index among them, the cell \<open>t\<close> of every assembled image holds the value of
  a source pixel of panel \<open>p\<close> that is mapped to \<open>t\<close>: panels are written in increasing
  index order and a later write replaces an earlier one.
\<close>

theorem assemble_last_panel_wins:
  fixes X :: "'a::zero stack_arg"
  assumes "valid_map m" "compatible X m"
    and "p < length m" "t \<in> set (concat (m ! p))"
    and "\<forall>q. p < q \<and> q < length m \<longrightarrow> t \<notin> set (concat (m ! q))"
  shows "\<exists>imgs. assemble_image_stack_batch X m = Inr (squeeze_images imgs) \<and>
      length imgs = length (expand_stack X) \<and>
      (\<forall>b<length imgs. \<exists>f s. source m (p, f, s) \<and> m ! p ! f ! s = t \<and>
         getitem_point (imgs ! b) t = Inr (expand_stack X ! b ! p ! f ! s))"
proof -
  let ?ss = "expand_stack X"
  let ?imgs = "map (assembled m) ?ss"
  from assms(1) have nn: "nonneg_map m" by (simp add: valid_map_def)
  have each: "\<exists>f s. source m (p, f, s) \<and> m ! p ! f ! s = t \<and>
         getitem_point (?imgs ! b) t = Inr (?ss ! b ! p ! f ! s)"
    if b: "b < length ?imgs" for b
  proof -
    from b have b': "b < length ?ss" by simp
    then have ma: "matches (?ss ! b) m"
      using assms(2) by (simp add: compatible_def list_all_length)
    have im: "?imgs ! b = assembled m (?ss ! b)" using b' by simp
    show ?thesis
      unfolding im by (rule assembled_top_panel[OF nn ma assms(3,4,5)])
  qed
  have "assemble_image_stack_batch X m = Inr (squeeze_images ?imgs) \<and>
      length ?imgs = length ?ss"
    using assemble_batch[OF assms(1,2)] by simp
  with each show ?thesis by blast
qed

theorem assemble_last_panel_wins_witness:
  "valid_map [[[(0, 0), (0, 1)]], [[(0, 1), (1, 1)]]] \<and>
   compatible (Stack3 [[[1::int, 2]], [[3, 4]]]) [[[(0, 0), (0, 1)]], [[(0, 1), (1, 1)]]] \<and>
   (0, 1) \<in> set (concat (([[[(0, 0), (0, 1)]], [[(0, 1), (1, 1)]]] :: index_map) ! 0)) \<and>
   (0, 1) \<in> set (concat (([[[(0, 0), (0, 1)]], [[(0, 1), (1, 1)]]] :: index_map) ! 1)) \<and>
   assemble_image_stack_batch (Stack3 [[[1::int, 2]], [[3, 4]]])
     [[[(0, 0), (0, 1)]], [[(0, 1), (1, 1)]]] = Inr (Image2 [[1, 3], [0, 4]]) \<and>
   (\<exists>imgs. assemble_image_stack_batch (Stack3 [[[1::int, 2]], [[3, 4]]])
       [[[(0, 0), (0, 1)]], [[(0, 1), (1, 1)]]] = Inr (squeeze_images imgs) \<and>
      length imgs = 1 \<and>
      (\<exists>f s. source [[[(0, 0), (0, 1)]], [[(0, 1), (1, 1)]]] (1, f, s) \<and>
         getitem_point (imgs ! 0) (0, 1) = Inr ([[[1::int, 2]], [[3, 4]]] ! 1 ! f ! s)))"
proof -
  let ?m = "[[[(0, 0), (0, 1)]], [[(0, 1), (1, 1)]]] :: index_map"
  let ?X = "Stack3 [[[1::int, 2]], [[3, 4]]]"
  have v: "valid_map ?m" by (simp add: valid_map_def entries_def nonneg_map_def)
  have c: "compatible ?X ?m" by (simp add: compatible_def matches_def)
  have p: "(1::nat) < length ?m" by simp
  have t0: "(0, 1) \<in> set (concat (?m ! 0))" by simp
  have t: "(0, 1) \<in> set (concat (?m ! 1))" by simp
  have top: "\<forall>q. 1 < q \<and> q < length ?m \<longrightarrow> (0, 1) \<notin> set (concat (?m ! q))" by simp
  have e: "assemble_image_stack_batch ?X ?m = Inr (Image2 [[1, 3], [0, 4]])"
    by code_simp
  from assemble_last_panel_wins[OF v c p t top] obtain imgs where
    a: "assemble_image_stack_batch ?X ?m = Inr (squeeze_images imgs)"
    and l: "length imgs = 1"
    and w: "\<exists>f s. source ?m (1, f, s) \<and> ?m ! 1 ! f ! s = (0, 1) \<and>
         getitem_point (imgs ! 0) (0, 1) = Inr (expand_stack ?X ! 0 ! 1 ! f ! s)"
    by auto
  from w have "\<exists>f s. source ?m (1, f, s) \<and>
         getitem_point (imgs ! 0) (0, 1) = Inr ([[[1::int, 2]], [[3, 4]]] ! 1 ! f ! s)"
    by auto
  with a l have "\<exists>imgs. assemble_image_stack_batch ?X ?m = Inr (squeeze_images imgs) \<and>
      length imgs = 1 \<and>
      (\<exists>f s. source ?m (1, f, s) \<and>
         getitem_point (imgs ! 0) (0, 1) = Inr ([[[1::int, 2]], [[3, 4]]] ! 1 ! f ! s))"
    by blast
  with v c t0 t e show ?thesis by (intro conjI)
qed

text \<open>
  Claim C7. \<open>assemble\<close> returns a 2-dimensional array for a 3-dimensional stack and for a
  4-dimensional stack with one batch entry, and a 3-dimensional array with the same leading
  length otherwise; \<open>disassemble\<close> returns a 3-dimensional stack for a 2-dimensional image
  and for a 3-dimensional array with one image, and a 4-dimensional array with the same
  leading length otherwise. For \<open>disassemble\<close> the images are \<open>h \<times> w\<close> and every map
  entry addresses one of their cells.
\<close>

theorem squeeze_convention:
  fixes X :: "'a::zero stack_arg" and A :: "'a image_arg"
  assumes "valid_map m" "compatible X m"
    and "list_all (has_shape h w) (expand_image A)" "list_all (in_canvas h w) (entries m)"
  shows "(case X of
            Stack3 s \<Rightarrow> \<exists>img. assemble_image_stack_batch X m = Inr (Image2 img)
          | Stack4 ss \<Rightarrow>
              if length ss = 1 then \<exists>img. assemble_image_stack_batch X m = Inr (Image2 img)
              else \<exists>imgs. assemble_image_stack_batch X m = Inr (Image3 imgs) \<and>
                     length imgs = length ss) \<and>
         (case A of
            Image2 i \<Rightarrow> \<exists>st. disassemble_image_stack_batch A m = Inr (Stack3 st)
          | Image3 is \<Rightarrow>
              if length is = 1 then \<exists>st. disassemble_image_stack_batch A m = Inr (Stack3 st)
              else \<exists>sts. disassemble_image_stack_batch A m = Inr (Stack4 sts) \<and>
                     length sts = length is)"
proof
  show "(case X of
            Stack3 s \<Rightarrow> \<exists>img. assemble_image_stack_batch X m = Inr (Image2 img)
          | Stack4 ss \<Rightarrow>
              if length ss = 1 then \<exists>img. assemble_image_stack_batch X m = Inr (Image2 img)
              else \<exists>imgs. assemble_image_stack_batch X m = Inr (Image3 imgs) \<and>
                     length imgs = length ss)"
    using assemble_batch[OF assms(1,2)]
    by (cases X) (simp_all add: squeeze_images_def)
  show "(case A of
            Image2 i \<Rightarrow> \<exists>st. disassemble_image_stack_batch A m = Inr (Stack3 st)
          | Image3 is \<Rightarrow>
              if length is = 1 then \<exists>st. disassemble_image_stack_batch A m = Inr (Stack3 st)
              else \<exists>sts. disassemble_image_stack_batch A m = Inr (Stack4 sts) \<and>
                     length sts = length is)"
    using disassemble_eq[OF assms(3,4)]
    by (cases A) (simp_all add: squeeze_stacks_def)
qed


theorem squeeze_convention_witness:
  "valid_map [[[(0, 0), (0, 1)]]] \<and>
   compatible (Stack4 [[[[1::int, 2]]], [[[3, 4]]]]) [[[(0, 0), (0, 1)]]] \<and>
   list_all (has_shape 1 2) (expand_image (Image3 [[[5::int, 6]]])) \<and>
   list_all (in_canvas 1 2) (entries [[[(0, 0), (0, 1)]]]) \<and>
   (\<exists>imgs. assemble_image_stack_batch (Stack4 [[[[1::int, 2]]], [[[3, 4]]]])
       [[[(0, 0), (0, 1)]]] = Inr (Image3 imgs) \<and> length imgs = 2) \<and>
   (\<exists>st. disassemble_image_stack_batch (Image3 [[[5::int, 6]]]) [[[(0, 0), (0, 1)]]] =
       Inr (Stack3 st))"
proof -
  let ?m = "[[[(0, 0), (0, 1)]]] :: index_map"
  let ?X = "Stack4 [[[[1::int, 2]]], [[[3, 4]]]]"
  let ?A = "Image3 [[[5::int, 6]]]"
  have v: "valid_map ?m" by (simp add: valid_map_def entries_def nonneg_map_def)
  have c: "compatible ?X ?m" by (simp add: compatible_def matches_def)
  have s: "list_all (has_shape 1 2) (expand_image ?A)" by (simp add: has_shape_def)
  have i: "list_all (in_canvas 1 2) (entries ?m)" by (simp add: in_canvas_def entries_def)
  from squeeze_convention[OF v c s i]
  have "(\<exists>imgs. assemble_image_stack_batch ?X ?m = Inr (Image3 imgs) \<and> length imgs = 2) \<and>
        (\<exists>st. disassemble_image_stack_batch ?A ?m = Inr (Stack3 st))"
    by (simp add: numeral_2_eq_2)
  with v c s i show ?thesis by (intro conjI) blast+
qed

section \<open>Time tool (\<^verbatim>\<open>btx/timetool/rawimagetimetool.py\<close>)\<close>

text \<open>
  Floating-point values are real numbers, together with the three special values that
  numpy produces without raising: a division by zero gives \<open>NaN\<close> or an infinity (and a
  warning), never an exception. Rounding and overflow are not modelled.
\<close>

datatype npfloat = Fin real | PInf | NInf | NaN

definition np_true_divide :: "real \<Rightarrow> real \<Rightarrow> npfloat" where
  "np_true_divide a b =
     (if b \<noteq> 0 then Fin (a / b) else if a = 0 then NaN else if 0 < a then PInf else NInf)"

text \<open>The comparison \<open>\<le>\<close> of IEEE 754: false as soon as one side is \<open>NaN\<close>.\<close>

fun np_le :: "npfloat \<Rightarrow> npfloat \<Rightarrow> bool" where
  "np_le NaN _ = False"
| "np_le _ NaN = False"
| "np_le NInf _ = True"
| "np_le _ PInf = True"
| "np_le (Fin a) (Fin b) = (a \<le> b)"
| "np_le _ _ = False"

text \<open>
  \<^verbatim>\<open>ndarray.argmax\<close>: the scan keeps the first maximum and stops at the first \<open>NaN\<close>, which
  counts as maximal; an empty array raises ValueError.
\<close>

fun argmax_scan :: "npfloat \<Rightarrow> nat \<Rightarrow> nat \<Rightarrow> npfloat list \<Rightarrow> nat" where
  "argmax_scan mp max_ind i [] = max_ind"
| "argmax_scan mp max_ind i (x # xs) =
     (if \<not> np_le x mp then (if x = NaN then i else argmax_scan x i (Suc i) xs)
      else argmax_scan mp max_ind (Suc i) xs)"

definition argmax :: "npfloat list \<Rightarrow> error + nat" where
  "argmax xs =
     (case xs of
        [] \<Rightarrow> Inl ValueError
      | x # rest \<Rightarrow> Inr (if x = NaN then 0 else argmax_scan x 0 1 rest))"

text \<open>
  \<^verbatim>\<open>scipy.signal.fftconvolve(in1, in2, mode='same')\<close>, in exact arithmetic: the full linear
  convolution, cut to the length of \<open>in1\<close> around its centre. The transform mixes every
  input into every output, so one non-finite input makes the whole output \<open>NaN\<close>.
\<close>

definition is_fin :: "npfloat \<Rightarrow> bool" where
  "is_fin x = (case x of Fin _ \<Rightarrow> True | _ \<Rightarrow> False)"

definition the_fin :: "npfloat \<Rightarrow> real" where
  "the_fin x = (case x of Fin a \<Rightarrow> a | _ \<Rightarrow> 0)"

definition convolve_full :: "real list \<Rightarrow> real list \<Rightarrow> real list" where
  "convolve_full xs ks =
     map (\<lambda>n. \<Sum>k\<leftarrow>[0..<length xs]. if k \<le> n \<and> n - k < length ks then xs ! k * ks ! (n - k) else 0)
       [0..<length xs + length ks - 1]"

definition centered :: "'a list \<Rightarrow> nat \<Rightarrow> 'a list" where
  "centered ys n = take n (drop ((length ys - n) div 2) ys)"

definition fftconvolve_same :: "npfloat list \<Rightarrow> real list \<Rightarrow> npfloat list" where
  "fftconvolve_same in1 in2 =
     (if in1 = [] \<or> in2 = [] then []
      else if list_all is_fin in1
        then map Fin (centered (convolve_full (map the_fin in1) in2) (length in1))
        else replicate (length in1) NaN)"

text \<open>
  A camera image: \<open>ncols\<close> columns and the list of its rows. \<^verbatim>\<open>crop_image\<close> is
  \<^verbatim>\<open>img[first:last]\<close>, which keeps the width also when no row is left.
\<close>

record frame =
  ncols :: nat
  rows :: "real list list"

definition crop_image :: "frame \<Rightarrow> nat \<Rightarrow> nat \<Rightarrow> frame" where
  "crop_image img first_row last_row =
     img\<lparr>rows := drop first_row (take last_row (rows img))\<rparr>"

text \<open>\<^verbatim>\<open>np.sum(cropped, axis=0)\<close>: one sum per column.\<close>

definition sum_axis0 :: "frame \<Rightarrow> real list" where
  "sum_axis0 img = map (\<lambda>c. \<Sum>r\<leftarrow>rows img. r ! c) [0..<ncols img]"

text \<open>
  The two normalisation statements \<^verbatim>\<open>proj -= np.min(proj)\<close> and
  \<^verbatim>\<open>proj /= np.max(proj)\<close>; \<^verbatim>\<open>np.min\<close> raises ValueError on an empty projection.
\<close>

definition normalize :: "real list \<Rightarrow> error + npfloat list" where
  "normalize proj =
     (if proj = [] then Inl ValueError
      else
        let proj = map (\<lambda>p. p - amin proj) proj;
            proj = map (\<lambda>p. np_true_divide p (amax proj)) proj
        in Inr proj)"

definition kernel :: "real list" where
  "kernel = replicate 150 1 @ replicate 150 0"

text \<open>
  The statements of the \<^verbatim>\<open>try\<close> block after the image is retrieved: crop, project,
  normalise, convolve, and take the position and height of the maximum.
\<close>

definition edge_of_image :: "frame \<Rightarrow> error + nat \<times> npfloat" where
  "edge_of_image img =
     (let cropped = crop_image img 40 60;
          proj = sum_axis0 cropped
      in case normalize proj of
           Inl e \<Rightarrow> Inl e
         | Inr proj \<Rightarrow>
             let conv = fftconvolve_same proj kernel
             in (case argmax conv of
                   Inl e \<Rightarrow> Inl e
                 | Inr edge \<Rightarrow> Inr (edge, conv ! edge)))"

text \<open>
  An event carries the EPICS store (a value per channel name) and the camera image, which
  is absent when \<^verbatim>\<open>self.det.image(evt=evt)\<close> fails.
\<close>

record event =
  epics :: "string \<Rightarrow> real"
  image :: "frame option"

definition try_block :: "event \<Rightarrow> error + nat \<times> npfloat" where
  "try_block evt =
     (case image evt of
        None \<Rightarrow> Inl MissingImage
      | Some img \<Rightarrow> edge_of_image img)"

text \<open>
  The calibrator object. \<open>model\<close> is \<^verbatim>\<open>self._model\<close>, which holds a Python list
  (initially the empty one) or a numpy array (\<^verbatim>\<open>np.polyfit\<close> and \<^verbatim>\<open>np.load\<close> return
  arrays); the other fields are the attributes that \<^verbatim>\<open>fit_calib\<close> sets.
\<close>

datatype model_val = PyList "real list" | NdArray "real list"

record timetool =
  expmt :: string
  hutch :: string
  model :: model_val
  edges :: "int list option"
  delays :: "real list option"
  edges_fit :: "int list option"
  delays_fit :: "real list option"

definition init :: "string \<Rightarrow> timetool" where
  "init e = \<lparr>expmt = e, hutch = take 3 e, model = PyList [],
     edges = None, delays = None, edges_fit = None, delays_fit = None\<rparr>"

text \<open>The lines that the methods print.\<close>

datatype message =
  FittingInRange | FitOutOfRange | UsingModel | NoCalibrationModel | EntryNotUnderstood

text \<open>\<^verbatim>\<open>str.lower\<close> on ASCII text, and \<^verbatim>\<open>ttstage_code\<close>.\<close>

definition lower_char :: "char \<Rightarrow> char" where
  "lower_char c =
     (let n = (of_char c :: nat) in if 65 \<le> n \<and> n \<le> 90 then char_of (n + 32) else c)"

definition ttstage_code :: "string \<Rightarrow> error + string" where
  "ttstage_code hutch_name =
     (let h = map lower_char hutch_name;
          num = (if h = ''xpp'' then ''3''
                 else if h = ''xcs'' then ''4''
                 else if h = ''mfx'' then ''45''
                 else if h = ''cxi'' then ''5''
                 else [])
      in if num \<noteq> [] then Inr (''LAS:FS'' @ num @ '':VIT:FS_TGT_TIME_DIAL'')
         else Inl InvalidHutchError)"

text \<open>
  The event loop of \<^verbatim>\<open>detect_edges\<close>: the stage position is appended first; whatever the
  \<^verbatim>\<open>try\<close> block raises is caught and the appended position is popped.
\<close>

fun events_loop ::
  "string \<Rightarrow> event list \<Rightarrow> real list \<times> nat list \<times> npfloat list \<Rightarrow>
   real list \<times> nat list \<times> npfloat list" where
  "events_loop stage_code [] acc = acc"
| "events_loop stage_code (evt # evts) (stage_pos, edge_pos, conv_ampl) =
     (let stage_pos = stage_pos @ [epics evt stage_code]
      in case try_block evt of
           Inr (edge, ampl) \<Rightarrow>
             events_loop stage_code evts (stage_pos, edge_pos @ [edge], conv_ampl @ [ampl])
         | Inl e \<Rightarrow> events_loop stage_code evts (butlast stage_pos, edge_pos, conv_ampl))"

definition detect_edges ::
  "timetool \<Rightarrow> event list \<Rightarrow> error + real list \<times> nat list \<times> npfloat list" where
  "detect_edges self evts =
     (case ttstage_code (hutch self) of
        Inl e \<Rightarrow> Inl e
      | Inr stage_code \<Rightarrow> Inr (events_loop stage_code evts ([], [], [])))"

text \<open>
  \<^verbatim>\<open>np.polyfit(x, y, deg)\<close>: the argument checks of numpy, then the least-squares solution,
  which is a parameter \<open>lstsq\<close> of the model (floating-point linear algebra). The order is
  a natural number.
\<close>

definition np_polyfit ::
  "(int list \<Rightarrow> real list \<Rightarrow> nat \<Rightarrow> real list) \<Rightarrow> int list \<Rightarrow> real list \<Rightarrow> nat \<Rightarrow> error + real list" where
  "np_polyfit lstsq x y deg =
     (if x = [] then Inl TypeError
      else if length x \<noteq> length y then Inl TypeError
      else Inr (lstsq x y deg))"

text \<open>\<^verbatim>\<open>a[mask]\<close> with a boolean array: IndexError unless the lengths agree.\<close>

definition mask_select :: "bool list \<Rightarrow> 'a list \<Rightarrow> error + 'a list" where
  "mask_select msk xs =
     (if length msk \<noteq> length xs then Inl IndexError
      else Inr (map snd (filter fst (zip msk xs))))"

text \<open>
  A method returns the object as it has left it, the lines it has printed, and either the
  exception it has raised or its value.
\<close>

type_synonym 'a outcome = "timetool \<times> message list \<times> (error + 'a)"

definition fit_calib ::
  "(int list \<Rightarrow> real list \<Rightarrow> nat \<Rightarrow> real list) \<Rightarrow> timetool \<Rightarrow> real list \<Rightarrow> int list \<Rightarrow>
   'b \<Rightarrow> 'c \<Rightarrow> nat \<Rightarrow> unit outcome" where
  "fit_calib lstsq self dls eds amplitudes fwhm order =
     (let self = self\<lparr>edges := Some eds, delays := Some dls\<rparr>;
          fit_all = (case np_polyfit lstsq eds dls order of
                       Inl e \<Rightarrow> (self, [FitOutOfRange], Inl e)
                     | Inr c \<Rightarrow> (self\<lparr>model := NdArray c\<rparr>, [FitOutOfRange], Inr ()))
      in if list_ex (\<lambda>e. 250 < e) eds
         then
           (case mask_select (map (\<lambda>e. 250 < e) eds) dls of
              Inl e \<Rightarrow> (self, [], Inl e)
            | Inr dls_fit \<Rightarrow>
                let eds_fit = filter (\<lambda>e. 250 < e) eds
                in if list_ex (\<lambda>e. e < 870) eds_fit
                   then
                     (case mask_select (map (\<lambda>e. e < 870) eds_fit) dls_fit of
                        Inl e \<Rightarrow> (self, [], Inl e)
                      | Inr dls_fit \<Rightarrow>
                          let eds_fit = filter (\<lambda>e. e < 870) eds_fit;
                              self = self\<lparr>edges_fit := Some eds_fit, delays_fit := Some dls_fit\<rparr>
                          in (case np_polyfit lstsq eds_fit dls_fit order of
                                Inl e \<Rightarrow> (self, [FittingInRange], Inl e)
                              | Inr c \<Rightarrow> (self\<lparr>model := NdArray c\<rparr>, [FittingInRange], Inr ())))
                   else fit_all)
         else fit_all)"

text \<open>
  The truth value that \<^verbatim>\<open>if self._model:\<close> takes. A list is true when it is not empty.
  For a numpy array, \<^verbatim>\<open>bool\<close> raises ValueError when the array has more than one element,
  is the truth value of the element when there is one, and is false for an empty array
  (numpy 1.x, with a deprecation warning).
\<close>

definition truth :: "model_val \<Rightarrow> error + bool" where
  "truth m =
     (case m of
        PyList cs \<Rightarrow> Inr (cs \<noteq> [])
      | NdArray cs \<Rightarrow>
          (case cs of [] \<Rightarrow> Inr False | [c] \<Rightarrow> Inr (c \<noteq> 0) | _ \<Rightarrow> Inl ValueError))"

fun coefficients :: "model_val \<Rightarrow> real list" where
  "coefficients (PyList cs) = cs"
| "coefficients (NdArray cs) = cs"

text \<open>
  The loop \<^verbatim>\<open>for i, coeff in enumerate(self._model): correction += coeff*edge_pos**(n-i-1)\<close>
  and \<^verbatim>\<open>jitter_correct\<close>; the edge position is a Python integer.
\<close>

fun correction_loop :: "nat \<Rightarrow> int \<Rightarrow> (nat \<times> real) list \<Rightarrow> real \<Rightarrow> real" where
  "correction_loop n edge_pos [] correction = correction"
| "correction_loop n edge_pos ((i, coeff) # rest) correction =
     correction_loop n edge_pos rest (correction + coeff * of_int (edge_pos ^ (n - i - 1)))"

definition jitter_correct :: "timetool \<Rightarrow> int \<Rightarrow> real outcome" where
  "jitter_correct self edge_pos =
     (case truth (model self) of
        Inl e \<Rightarrow> (self, [], Inl e)
      | Inr True \<Rightarrow>
          let n = length (coefficients (model self));
              correction =
                correction_loop n edge_pos (enumerate 0 (coefficients (model self))) 0
          in (self, [UsingModel], Inr (correction * 1000))
      | Inr False \<Rightarrow> (self, [NoCalibrationModel], Inr (0 * 1000)))"

definition actual_time :: "timetool \<Rightarrow> int \<Rightarrow> real \<Rightarrow> real outcome" where
  "actual_time self edge_pos nominal_delay =
     (case jitter_correct self edge_pos of
        (self, out, Inl e) \<Rightarrow> (self, out, Inl e)
      | (self, out, Inr c) \<Rightarrow> (self, out, Inr (nominal_delay + c)))"

text \<open>
  The setter of the property \<open>model\<close>. The value assigned is a list, a string or
  something else. The list branch reads the name \<^verbatim>\<open>model\<close>, which is bound neither in the
  method nor in the module, and raises NameError. \<^verbatim>\<open>val.split('.')[1]\<close> is the second
  piece of the string, and raises IndexError when there is no dot. \<^verbatim>\<open>np.load\<close> reads the
  file system, a parameter \<open>load\<close> of the model.
\<close>

datatype pyval = PList "real list" | PStr string | POther

fun split_on :: "char \<Rightarrow> string \<Rightarrow> string list" where
  "split_on c [] = [[]]"
| "split_on c (x # xs) =
     (if x = c then [] # split_on c xs
      else (case split_on c xs of [] \<Rightarrow> [[x]] | p # ps \<Rightarrow> (x # p) # ps))"

definition model_setter ::
  "(string \<Rightarrow> error + real list) \<Rightarrow> timetool \<Rightarrow> pyval \<Rightarrow> unit outcome" where
  "model_setter load self val =
     (case val of
        PList _ \<Rightarrow> (self, [], Inl NameError)
      | PStr v \<Rightarrow>
          (let pieces = split_on (CHR ''.'') v
           in if length pieces < 2 then (self, [], Inl IndexError)
              else
                let ext = pieces ! 1
                in if ext = ''txt'' then (self, [], Inr ())
                   else if ext = ''yaml'' then (self, [], Inr ())
                   else if ext = ''npy'' then
                     (case load v of
                        Inl e \<Rightarrow> (self, [], Inl e)
                      | Inr a \<Rightarrow> (self\<lparr>model := NdArray a\<rparr>, [], Inr ()))
                   else (self, [], Inr ()))
      | POther \<Rightarrow> (self, [EntryNotUnderstood], Inr ()))"

subsection \<open>The jitter correction\<close>

lemma correction_loop_sum:
  "correction_loop n e (enumerate k cs) acc =
     acc + (\<Sum>i<length cs. cs ! i * of_int (e ^ (n - (k + i) - 1)))"
proof (induction cs arbitrary: k acc)
  case Nil
  then show ?case by simp
next
  case (Cons c cs)
  have "(\<Sum>i<Suc (length cs). (c # cs) ! i * real_of_int (e ^ (n - (k + i) - 1))) =
        c * real_of_int (e ^ (n - k - 1)) +
        (\<Sum>i<length cs. cs ! i * real_of_int (e ^ (n - (Suc k + i) - 1)))"
    by (simp add: sum.lessThan_Suc_shift del: sum.lessThan_Suc)
  then show ?case using Cons.IH[of "Suc k"] by simp
qed

lemma jitter_correct_list:
  assumes "model self = PyList cs" "cs \<noteq> []"
  shows "jitter_correct self e =
     (self, [UsingModel],
      Inr ((\<Sum>i<length cs. cs ! i * of_int e ^ (length cs - 1 - i)) * 1000))"
proof -
  have "n - i - 1 = n - 1 - i" for n i :: nat by simp
  then show ?thesis
    using assms by (simp add: jitter_correct_def truth_def correction_loop_sum)
qed

lemma jitter_correct_array:
  assumes "model self = NdArray cs" "2 \<le> length cs"
  shows "jitter_correct self e = (self, [], Inl ValueError)"
proof -
  from assms(2) obtain a b rest where "cs = a # b # rest"
    by (cases cs; cases "tl cs") auto
  with assms(1) show ?thesis by (simp add: jitter_correct_def truth_def)
qed

text \<open>
  Claim C2 (a defect of the code). \<^verbatim>\<open>fit_calib\<close> stores the array that \<^verbatim>\<open>np.polyfit\<close>
  returns; on an array of three coefficients \<^verbatim>\<open>if self._model:\<close> raises ValueError, so
  \<^verbatim>\<open>jitter_correct\<close> returns no correction after a calibration. With the same coefficients
  held as a Python list, the correction at edge position 10 is 100000, as
  \<open>jitter_correct_list\<close> states in general.
\<close>

theorem jitter_correct_after_fit_raises:
  "(case fit_calib (\<lambda>x y deg. [1, 0, 0]) (init ''mfxlz0420'') [90000, 160000] [300, 400] () () 2 of
      (self, out, r) \<Rightarrow>
        r = Inr () \<and> model self = NdArray [1, 0, 0] \<and>
        jitter_correct self 10 = (self, [], Inl ValueError) \<and>
        snd (snd (jitter_correct (self\<lparr>model := PyList [1, 0, 0]\<rparr>) 10)) = Inr 100000)"
  by (simp add: fit_calib_def init_def np_polyfit_def mask_select_def jitter_correct_def
      truth_def Let_def)

text \<open>
  Claim C3. While the model is the empty list, which it is from \<^verbatim>\<open>__init__\<close> on,
  \<^verbatim>\<open>jitter_correct\<close> raises nothing, prints that there is no calibration model and
  returns 0.
\<close>

theorem jitter_correct_uncalibrated:
  "jitter_correct (self\<lparr>model := PyList []\<rparr>) e =
     (self\<lparr>model := PyList []\<rparr>, [NoCalibrationModel], Inr 0) \<and>
   jitter_correct (init x) e = (init x, [NoCalibrationModel], Inr 0)"
  by (simp add: jitter_correct_def truth_def init_def)

subsection \<open>The calibration fit\<close>

text \<open>
  The trusted window as the specification words it: the samples whose edge position lies
  strictly between 250 and 870.
\<close>

definition in_window :: "int \<Rightarrow> bool" where
  "in_window e = (250 < e \<and> e < 870)"

definition trusted :: "real list \<Rightarrow> int list \<Rightarrow> (real \<times> int) list" where
  "trusted dls eds = filter (\<lambda>s. in_window (snd s)) (zip dls eds)"

lemma mask_select_zip:
  "length xs = length es \<Longrightarrow>
   mask_select (map P es) xs = Inr (map fst (filter (\<lambda>s. P (snd s)) (zip xs es)))"
proof -
  assume l: "length xs = length es"
  have "map snd (filter fst (zip (map P es) xs)) = map fst (filter (\<lambda>s. P (snd s)) (zip xs es))"
    using l by (induction xs es rule: list_induct2) simp_all
  with l show ?thesis by (simp add: mask_select_def)
qed

lemma filter_zip_snd:
  "length xs = length es \<Longrightarrow> filter P es = map snd (filter (\<lambda>s. P (snd s)) (zip xs es))"
  by (induction xs es rule: list_induct2) simp_all

lemma list_ex_zip_snd:
  "length xs = length es \<Longrightarrow> list_ex P es \<longleftrightarrow> filter (\<lambda>s. P (snd s)) (zip xs es) \<noteq> []"
  by (induction xs es rule: list_induct2) simp_all

text \<open>
  Claim C5 (as amended). For equally many delays and edges, \<^verbatim>\<open>fit_calib\<close> fits on exactly
  the samples whose edge lies strictly between 250 and 870 when there is one; when there is
  none and the sample set is not empty it fits on all samples, with the requested order,
  prints the out-of-range line and raises nothing; on the empty sample set
  \<^verbatim>\<open>np.polyfit\<close> raises TypeError after the out-of-range line is printed.
\<close>

theorem fit_calib_window:
  assumes "length dls = length eds"
  shows "fit_calib lstsq self dls eds amplitudes fwhm order =
     (let self = self\<lparr>edges := Some eds, delays := Some dls\<rparr>;
          sel = trusted dls eds
      in if sel \<noteq> []
         then (self\<lparr>edges_fit := Some (map snd sel), delays_fit := Some (map fst sel),
                    model := NdArray (lstsq (map snd sel) (map fst sel) order)\<rparr>,
               [FittingInRange], Inr ())
         else if eds \<noteq> []
         then (self\<lparr>model := NdArray (lstsq eds dls order)\<rparr>, [FitOutOfRange], Inr ())
         else (self, [FitOutOfRange], Inl TypeError))"
proof -
  define z1 where "z1 = filter (\<lambda>s. 250 < snd s) (zip dls eds)"
  define sel where "sel = trusted dls eds"
  define d1 e1 d2 e2 where "d1 = map fst z1" and "e1 = map snd z1"
    and "d2 = map fst sel" and "e2 = map snd sel"
  have z2: "filter (\<lambda>s. snd s < 870) z1 = sel"
    by (simp add: z1_def sel_def trusted_def in_window_def conj_commute)
  have m1: "mask_select (map (\<lambda>e. 250 < e) eds) dls = Inr d1"
    unfolding d1_def z1_def by (rule mask_select_zip[OF assms])
  have f1: "filter (\<lambda>e. 250 < e) eds = e1"
    unfolding e1_def z1_def by (rule filter_zip_snd[OF assms])
  have x1: "list_ex (\<lambda>e. 250 < e) eds \<longleftrightarrow> z1 \<noteq> []"
    unfolding z1_def by (rule list_ex_zip_snd[OF assms])
  have l1: "length d1 = length e1" by (simp add: d1_def e1_def)
  have zz: "zip d1 e1 = z1" by (simp add: d1_def e1_def zip_map_fst_snd)
  have m2: "mask_select (map (\<lambda>e. e < 870) e1) d1 = Inr d2"
    using mask_select_zip[OF l1, of "\<lambda>e. e < 870"] by (simp only: zz z2 d2_def)
  have f2: "filter (\<lambda>e. e < 870) e1 = e2"
    using filter_zip_snd[OF l1, of "\<lambda>e. e < 870"] by (simp only: zz z2 e2_def)
  have x2: "list_ex (\<lambda>e. e < 870) e1 \<longleftrightarrow> sel \<noteq> []"
    using list_ex_zip_snd[OF l1, of "\<lambda>e. e < 870"] by (simp only: zz z2)
  have z12: "z1 = [] \<Longrightarrow> sel = []" using z2 by auto
  have p2: "sel \<noteq> [] \<Longrightarrow> np_polyfit lstsq e2 d2 order = Inr (lstsq e2 d2 order)"
    by (simp add: np_polyfit_def d2_def e2_def)
  have pa: "np_polyfit lstsq eds dls order =
      (if eds = [] then Inl TypeError else Inr (lstsq eds dls order))"
    using assms by (simp add: np_polyfit_def)
  have "fit_calib lstsq self dls eds amplitudes fwhm order =
     (let self = self\<lparr>edges := Some eds, delays := Some dls\<rparr>
      in if sel \<noteq> []
         then (self\<lparr>edges_fit := Some e2, delays_fit := Some d2,
                    model := NdArray (lstsq e2 d2 order)\<rparr>,
               [FittingInRange], Inr ())
         else if eds \<noteq> []
         then (self\<lparr>model := NdArray (lstsq eds dls order)\<rparr>, [FitOutOfRange], Inr ())
         else (self, [FitOutOfRange], Inl TypeError))"
  proof (cases "eds = []")
    case True
    with assms have "dls = []" by simp
    with True have "sel = []" by (simp add: sel_def trusted_def)
    with True \<open>dls = []\<close> show ?thesis
      by (simp add: fit_calib_def np_polyfit_def)
  next
    case ne: False
    show ?thesis
    proof (cases "sel = []")
      case True
      with ne show ?thesis
        by (simp add: fit_calib_def Let_def m1 f1 x1 m2 f2 x2 pa)
    next
      case False
      then have "z1 \<noteq> []" using z12 by blast
      with False show ?thesis
        by (simp add: fit_calib_def Let_def m1 f1 x1 m2 f2 x2 p2)
    qed
  qed
  then show ?thesis by (simp add: Let_def sel_def d2_def e2_def)
qed

theorem fit_calib_window_witness:
  "length [1, 2, 3, 4 :: real] = length [100, 300, 900, 251 :: int] \<and>
   trusted [1, 2, 3, 4] [100, 300, 900, 251] = [(2, 300), (4, 251)] \<and>
   snd (fit_calib (\<lambda>x y deg. map of_int x @ y) (init ''mfxlz0420'') [1, 2, 3, 4]
          [100, 300, 900, 251] () () 2) = ([FittingInRange], Inr ()) \<and>
   model (fst (fit_calib (\<lambda>x y deg. map of_int x @ y) (init ''mfxlz0420'') [1, 2, 3, 4]
          [100, 300, 900, 251] () () 2)) = NdArray [300, 251, 2, 4] \<and>
   trusted [1, 2] [100, 900] = [] \<and>
   snd (fit_calib (\<lambda>x y deg. map of_int x @ y) (init ''mfxlz0420'') [1, 2]
          [100, 900] () () 2) = ([FitOutOfRange], Inr ()) \<and>
   model (fst (fit_calib (\<lambda>x y deg. map of_int x @ y) (init ''mfxlz0420'') [1, 2]
          [100, 900] () () 2)) = NdArray [100, 900, 1, 2]"
proof -
  have l: "length [1, 2, 3, 4 :: real] = length [100, 300, 900, 251 :: int]" by simp
  have t: "trusted [1, 2, 3, 4] [100, 300, 900, 251] = [(2, 300), (4, 251)]"
    by (simp add: trusted_def in_window_def)
  have l2: "length [1, 2 :: real] = length [100, 900 :: int]" by simp
  have t2: "trusted [1, 2] [100, 900] = []"
    by (simp add: trusted_def in_window_def)
  show ?thesis
    using l t t2
    by (simp add: fit_calib_window[OF l] fit_calib_window[OF l2])
qed

text \<open>
  No sample lies in the window of the empty sample set, and \<^verbatim>\<open>fit_calib\<close> raises.
\<close>

theorem fit_calib_empty_counterexample:
  "\<not> list_ex in_window [] \<and>
   snd (fit_calib (\<lambda>x y deg. replicate (Suc deg) 0) (init ''mfxlz0420'') [] [] () () 2) =
     ([FitOutOfRange], Inl TypeError)"
  by (simp add: fit_calib_def np_polyfit_def)

subsection \<open>Edge detection on one frame\<close>

lemma fold_min_le_init: "fold min ys (a::'a::linorder) \<le> a"
proof (induction ys arbitrary: a)
  case Nil
  then show ?case by simp
next
  case (Cons y ys)
  have "fold min ys (min y a) \<le> min y a" by (rule Cons.IH)
  also have "\<dots> \<le> a" by simp
  finally show ?case by simp
qed

lemma fold_min_le_elem: "y \<in> set ys \<Longrightarrow> fold min ys a \<le> (y::'a::linorder)"
proof (induction ys arbitrary: a)
  case Nil
  then show ?case by simp
next
  case (Cons z zs)
  show ?case
  proof (cases "y = z")
    case True
    have "fold min zs (min z a) \<le> min z a" by (rule fold_min_le_init)
    also have "\<dots> \<le> y" using True by simp
    finally show ?thesis by simp
  next
    case False
    with Cons.prems have "y \<in> set zs" by simp
    from Cons.IH[OF this] show ?thesis by simp
  qed
qed

lemma amin_le: "x \<in> set xs \<Longrightarrow> amin xs \<le> x"
  by (cases xs) (auto simp: fold_min_le_init fold_min_le_elem)

lemma amax_mem: "xs \<noteq> [] \<Longrightarrow> amax xs \<in> set xs"
  using fold_max_mem by (cases xs) auto

lemma normalize_zero_range:
  assumes "proj \<noteq> []" "amax proj = amin proj"
  shows "normalize proj = Inr (replicate (length proj) NaN)"
proof -
  have eq: "p = amin proj" if "p \<in> set proj" for p
    using amin_le[OF that] amax_ge[OF that] assms(2) by simp
  have sh: "map (\<lambda>p. p - amin proj) proj = replicate (length proj) 0"
    by (rule nth_equalityI) (simp_all add: eq)
  have "amax (replicate (length proj) (0::real)) \<in> set (replicate (length proj) (0::real))"
    using assms(1) by (intro amax_mem) simp
  then have mx: "amax (replicate (length proj) (0::real)) = 0" by simp
  show ?thesis
    using assms(1) by (simp add: normalize_def Let_def sh mx np_true_divide_def)
qed

lemma length_normalize: "normalize proj = Inr xs \<Longrightarrow> length xs = length proj \<and> proj \<noteq> []"
  by (auto simp: normalize_def Let_def split: if_splits)

lemma normalize_ok: "proj \<noteq> [] \<Longrightarrow> \<exists>xs. normalize proj = Inr xs"
  by (simp add: normalize_def Let_def)

lemma normalize_empty: "normalize [] = Inl ValueError"
  by (simp add: normalize_def)

lemma length_kernel: "length kernel = 300"
  by (simp add: kernel_def)

lemma length_fftconvolve_same: "length (fftconvolve_same xs kernel) = length xs"
proof -
  have "kernel \<noteq> []" using length_kernel by auto
  then show ?thesis
    by (auto simp: fftconvolve_same_def centered_def convolve_full_def length_kernel)
qed

lemma fftconvolve_nan:
  "0 < n \<Longrightarrow> fftconvolve_same (replicate n NaN) kernel = replicate n NaN"
proof -
  assume n: "0 < n"
  have "kernel \<noteq> []" using length_kernel by auto
  moreover have "\<not> list_all is_fin (replicate n NaN)"
    using n by (cases n) (simp_all add: is_fin_def)
  ultimately show ?thesis using n by (simp add: fftconvolve_same_def)
qed

lemma argmax_ok: "xs \<noteq> [] \<Longrightarrow> \<exists>i. argmax xs = Inr i"
  by (cases xs) (simp_all add: argmax_def)

lemma length_sum_axis0: "length (sum_axis0 img) = ncols img"
  by (simp add: sum_axis0_def)

lemma ncols_crop: "ncols (crop_image img a b) = ncols img"
  by (simp add: crop_image_def)

lemma edge_of_image_ok:
  assumes "0 < ncols img"
  shows "\<exists>r. edge_of_image img = Inr r"
proof -
  let ?proj = "sum_axis0 (crop_image img 40 60)"
  have ne: "?proj \<noteq> []" using assms length_sum_axis0[of "crop_image img 40 60"]
    by (auto simp: ncols_crop)
  then obtain xs where xs: "normalize ?proj = Inr xs" using normalize_ok by blast
  with length_normalize[OF xs] have "fftconvolve_same xs kernel \<noteq> []"
    using length_fftconvolve_same[of xs] by auto
  then obtain i where "argmax (fftconvolve_same xs kernel) = Inr i" using argmax_ok by blast
  with xs show ?thesis by (simp add: edge_of_image_def Let_def)
qed

lemma edge_of_image_no_column:
  assumes "ncols img = 0"
  shows "edge_of_image img = Inl ValueError"
  using assms by (simp add: edge_of_image_def Let_def sum_axis0_def crop_image_def normalize_def)

lemma edge_of_image_zero_range:
  assumes "sum_axis0 (crop_image img 40 60) \<noteq> []"
    and "amax (sum_axis0 (crop_image img 40 60)) = amin (sum_axis0 (crop_image img 40 60))"
  shows "edge_of_image img = Inr (0, NaN)"
proof -
  let ?proj = "sum_axis0 (crop_image img 40 60)"
  let ?n = "length ?proj"
  have n: "0 < ?n" using assms(1) by simp
  have c: "fftconvolve_same (replicate ?n NaN) kernel = replicate ?n NaN"
    by (rule fftconvolve_nan[OF n])
  have a: "argmax (replicate ?n NaN) = Inr 0"
    using n by (cases ?n) (simp_all add: argmax_def)
  have v: "replicate ?n NaN ! 0 = NaN" using n by simp
  show ?thesis
    by (simp add: edge_of_image_def Let_def normalize_zero_range[OF assms] c a v)
qed

subsection \<open>The event loop\<close>

text \<open>
  The edge position and amplitude that the \<^verbatim>\<open>try\<close> block computes for an event, and
  whether it computes one.
\<close>

definition the_sample :: "event \<Rightarrow> nat \<times> npfloat" where
  "the_sample evt = (case try_block evt of Inr r \<Rightarrow> r | Inl e \<Rightarrow> (0, NaN))"

definition survives :: "event \<Rightarrow> bool" where
  "survives evt = (case try_block evt of Inr r \<Rightarrow> True | Inl e \<Rightarrow> False)"

lemma events_loop_filter:
  "events_loop code evts (sp, ep, ca) =
     (sp @ map (\<lambda>evt. epics evt code) (filter survives evts),
      ep @ map (\<lambda>evt. fst (the_sample evt)) (filter survives evts),
      ca @ map (\<lambda>evt. snd (the_sample evt)) (filter survives evts))"
proof (induction evts arbitrary: sp ep ca)
  case Nil
  then show ?case by simp
next
  case (Cons evt evts)
  show ?case
  proof (cases "try_block evt")
    case (Inl e)
    then show ?thesis by (simp add: Cons.IH survives_def)
  next
    case (Inr r)
    obtain edge ampl where r: "r = (edge, ampl)" by (cases r)
    with Inr show ?thesis by (simp add: Cons.IH survives_def the_sample_def)
  qed
qed

text \<open>
  Every retrieved camera image has at least one column; an event is retrieved when its
  image is present.
\<close>

definition well_formed_frames :: "event list \<Rightarrow> bool" where
  "well_formed_frames evts =
     list_all (\<lambda>evt. case image evt of None \<Rightarrow> True | Some img \<Rightarrow> 0 < ncols img) evts"

definition retrieved :: "event \<Rightarrow> bool" where
  "retrieved evt = (image evt \<noteq> None)"

lemma survives_retrieved:
  assumes "well_formed_frames evts" "evt \<in> set evts"
  shows "survives evt = retrieved evt"
proof (cases "image evt")
  case None
  then show ?thesis by (simp add: survives_def retrieved_def try_block_def)
next
  case (Some img)
  with assms have "0 < ncols img" by (auto simp: well_formed_frames_def list_all_iff)
  from edge_of_image_ok[OF this] Some show ?thesis
    by (auto simp: survives_def retrieved_def try_block_def)
qed

lemma length_filter_not:
  "length (filter P xs) = length xs - length (filter (\<lambda>x. \<not> P x) xs)"
  using sum_length_filter_compl[of P xs] by simp

text \<open>
  Claim C4. For a recognised hutch and camera images that have at least one column, so
  that the only frames the \<^verbatim>\<open>try\<close> block fails on are the ones whose retrieval fails,
  \<^verbatim>\<open>detect_edges\<close> returns three sequences built from the retrieved events alone, in event
  order: the delay, the edge position and the amplitude at one index come from one event,
  the delay of a failed frame appears nowhere, and the common length is the number of
  events minus the number of failed frames.
\<close>

theorem detect_edges_alignment:
  assumes "ttstage_code (hutch self) = Inr code" and "well_formed_frames evts"
  shows "detect_edges self evts =
           Inr (map (\<lambda>evt. epics evt code) (filter retrieved evts),
                map (\<lambda>evt. fst (the_sample evt)) (filter retrieved evts),
                map (\<lambda>evt. snd (the_sample evt)) (filter retrieved evts)) \<and>
         length (filter retrieved evts) =
           length evts - card {i. i < length evts \<and> image (evts ! i) = None} \<and>
         list_all (\<lambda>evt. try_block evt = Inr (the_sample evt)) (filter retrieved evts)"
proof -
  have f: "filter survives evts = filter retrieved evts"
    by (rule filter_cong) (simp_all add: survives_retrieved[OF assms(2)])
  have d: "detect_edges self evts =
           Inr (map (\<lambda>evt. epics evt code) (filter retrieved evts),
                map (\<lambda>evt. fst (the_sample evt)) (filter retrieved evts),
                map (\<lambda>evt. snd (the_sample evt)) (filter retrieved evts))"
    by (simp add: detect_edges_def assms(1) events_loop_filter f)
  have "length (filter retrieved evts) = length evts - length (filter (\<lambda>evt. \<not> retrieved evt) evts)"
    by (rule length_filter_not)
  also have "length (filter (\<lambda>evt. \<not> retrieved evt) evts) =
      card {i. i < length evts \<and> image (evts ! i) = None}"
    by (simp add: length_filter_conv_card retrieved_def)
  finally have l: "length (filter retrieved evts) =
           length evts - card {i. i < length evts \<and> image (evts ! i) = None}" .
  have "try_block evt = Inr (the_sample evt)" if "evt \<in> set (filter retrieved evts)" for evt
  proof -
    from that have "survives evt" using survives_retrieved[OF assms(2)] by simp
    then show ?thesis by (auto simp: survives_def the_sample_def split: sum.splits)
  qed
  then have s: "list_all (\<lambda>evt. try_block evt = Inr (the_sample evt)) (filter retrieved evts)"
    by (simp add: list_all_iff)
  from d l s show ?thesis by blast
qed

theorem detect_edges_alignment_witness:
  "ttstage_code (hutch (init ''mfxlz0420'')) = Inr ''LAS:FS45:VIT:FS_TGT_TIME_DIAL'' \<and>
   well_formed_frames
     [\<lparr>epics = (\<lambda>_. 3 / 2), image = Some \<lparr>ncols = 4, rows = replicate 41 [0, 1, 1, 1 / 2]\<rparr>\<rparr>,
      \<lparr>epics = (\<lambda>_. 5 / 2), image = None\<rparr>,
      \<lparr>epics = (\<lambda>_. 7 / 2), image = Some \<lparr>ncols = 4, rows = replicate 41 [0, 0, 1, 1]\<rparr>\<rparr>] \<and>
   detect_edges (init ''mfxlz0420'')
     [\<lparr>epics = (\<lambda>_. 3 / 2), image = Some \<lparr>ncols = 4, rows = replicate 41 [0, 1, 1, 1 / 2]\<rparr>\<rparr>,
      \<lparr>epics = (\<lambda>_. 5 / 2), image = None\<rparr>,
      \<lparr>epics = (\<lambda>_. 7 / 2), image = Some \<lparr>ncols = 4, rows = replicate 41 [0, 0, 1, 1]\<rparr>\<rparr>] =
     Inr ([3 / 2, 7 / 2], [0, 0], [Fin (5 / 2), Fin 2]) \<and>
   length (filter retrieved
     [\<lparr>epics = (\<lambda>_. 3 / 2), image = Some \<lparr>ncols = 4, rows = replicate 41 [0, 1, 1, 1 / 2]\<rparr>\<rparr>,
      \<lparr>epics = (\<lambda>_. 5 / 2), image = None\<rparr>,
      \<lparr>epics = (\<lambda>_. 7 / 2), image = Some \<lparr>ncols = 4, rows = replicate 41 [0, 0, 1, 1]\<rparr>\<rparr>]) = 2"
proof -
  let ?evts = "[\<lparr>epics = (\<lambda>_. 3 / 2), image = Some \<lparr>ncols = 4, rows = replicate 41 [0, 1, 1, 1 / 2]\<rparr>\<rparr>,
      \<lparr>epics = (\<lambda>_. 5 / 2), image = None\<rparr>,
      \<lparr>epics = (\<lambda>_. 7 / 2), image = Some \<lparr>ncols = 4, rows = replicate 41 [0, 0, 1, 1]\<rparr>\<rparr>]"
  have h: "ttstage_code (hutch (init ''mfxlz0420'')) = Inr ''LAS:FS45:VIT:FS_TGT_TIME_DIAL''"
    by code_simp
  have w: "well_formed_frames ?evts" by (simp add: well_formed_frames_def)
  have s1: "the_sample \<lparr>epics = (\<lambda>_. 3 / 2), image = Some \<lparr>ncols = 4, rows = replicate 41 [0, 1, 1, 1 / 2]\<rparr>\<rparr>
      = (0, Fin (5 / 2))"
    by code_simp
  have s2: "the_sample \<lparr>epics = (\<lambda>_. 7 / 2), image = Some \<lparr>ncols = 4, rows = replicate 41 [0, 0, 1, 1]\<rparr>\<rparr>
      = (0, Fin 2)"
    by code_simp
  have r: "filter retrieved ?evts =
     [\<lparr>epics = (\<lambda>_. 3 / 2), image = Some \<lparr>ncols = 4, rows = replicate 41 [0, 1, 1, 1 / 2]\<rparr>\<rparr>,
      \<lparr>epics = (\<lambda>_. 7 / 2), image = Some \<lparr>ncols = 4, rows = replicate 41 [0, 0, 1, 1]\<rparr>\<rparr>]"
    by (simp add: retrieved_def)
  from detect_edges_alignment[OF h w] have
    "detect_edges (init ''mfxlz0420'') ?evts =
       Inr (map (\<lambda>evt. epics evt ''LAS:FS45:VIT:FS_TGT_TIME_DIAL'') (filter retrieved ?evts),
            map (\<lambda>evt. fst (the_sample evt)) (filter retrieved ?evts),
            map (\<lambda>evt. snd (the_sample evt)) (filter retrieved ?evts))"
    by blast
  then have d: "detect_edges (init ''mfxlz0420'') ?evts =
      Inr ([3 / 2, 7 / 2], [0, 0], [Fin (5 / 2), Fin 2])"
    unfolding r by (simp add: s1 s2)
  have l: "length (filter retrieved ?evts) = 2" unfolding r by simp
  from h w d l show ?thesis by (intro conjI)
qed

subsection \<open>Degenerate frames and the model setter\<close>

text \<open>
  Claim C8 (as amended). A frame whose cropped projection is not empty and has zero dynamic
  range raises nothing: the normalisation divides 0 by 0, every entry becomes NaN, the
  frame is kept, and its sample is edge position 0 with amplitude NaN; the loop goes on
  with the next event.
\<close>

theorem zero_range_frame_kept:
  assumes "image evt = Some img"
    and "sum_axis0 (crop_image img 40 60) \<noteq> []"
    and "amax (sum_axis0 (crop_image img 40 60)) = amin (sum_axis0 (crop_image img 40 60))"
  shows "try_block evt = Inr (0, NaN) \<and>
         events_loop code (evt # evts) (sp, ep, ca) =
           events_loop code evts (sp @ [epics evt code], ep @ [0], ca @ [NaN])"
proof -
  have "try_block evt = Inr (0, NaN)"
    using edge_of_image_zero_range[OF assms(2,3)] assms(1) by (simp add: try_block_def)
  then show ?thesis by simp
qed

theorem zero_range_frame_kept_witness:
  "image \<lparr>epics = (\<lambda>_. 3 / 2), image = Some \<lparr>ncols = 2, rows = replicate 41 [5, 5]\<rparr>\<rparr> =
     Some \<lparr>ncols = 2, rows = replicate 41 [5, 5]\<rparr> \<and>
   sum_axis0 (crop_image \<lparr>ncols = 2, rows = replicate 41 [5, 5]\<rparr> 40 60) = [5, 5] \<and>
   amax [5, 5 :: real] = amin [5, 5 :: real] \<and>
   try_block \<lparr>epics = (\<lambda>_. 3 / 2), image = Some \<lparr>ncols = 2, rows = replicate 41 [5, 5]\<rparr>\<rparr> =
     Inr (0, NaN)"
proof -
  let ?img = "\<lparr>ncols = 2, rows = replicate 41 [5, 5 :: real]\<rparr>"
  let ?evt = "\<lparr>epics = (\<lambda>_ :: string. 3 / 2 :: real), image = Some ?img\<rparr>"
  have i: "image ?evt = Some ?img" by simp
  have p: "sum_axis0 (crop_image ?img 40 60) = [5, 5]" by code_simp
  have m: "amax [5, 5 :: real] = amin [5, 5 :: real]" by simp
  have ne: "sum_axis0 (crop_image ?img 40 60) \<noteq> []" by (simp add: p)
  have eq: "amax (sum_axis0 (crop_image ?img 40 60)) = amin (sum_axis0 (crop_image ?img 40 60))"
    by (simp add: p)
  from zero_range_frame_kept[OF i ne eq] have "try_block ?evt = Inr (0, NaN)" by blast
  with i p m show ?thesis by (intro conjI)
qed

text \<open>
  A run of one constant frame: \<^verbatim>\<open>detect_edges\<close> returns normally, with a NaN amplitude.
\<close>

theorem zero_range_no_error_counterexample:
  "sum_axis0 (crop_image \<lparr>ncols = 2, rows = replicate 41 [5, 5]\<rparr> 40 60) = [5, 5] \<and>
   amax [5, 5 :: real] = amin [5, 5 :: real] \<and>
   detect_edges (init ''mfxlz0420'')
     [\<lparr>epics = (\<lambda>_. 3 / 2), image = Some \<lparr>ncols = 2, rows = replicate 41 [5, 5]\<rparr>\<rparr>] =
     Inr ([3 / 2], [0], [NaN])"
  by code_simp

text \<open>
  Claim C10 (a defect of the code). The setter dispatches on the second dot-separated
  piece of the string, not on its ending: \<^verbatim>\<open>model.npy.txt\<close> ends in \<^verbatim>\<open>.txt\<close> and replaces
  the model, \<^verbatim>\<open>./model.npy\<close> ends in \<^verbatim>\<open>.npy\<close> and does not. For names with a single dot
  the claim holds: \<^verbatim>\<open>.npy\<close> replaces the model, \<^verbatim>\<open>.txt\<close> and \<^verbatim>\<open>.yaml\<close> leave it, a list
  raises NameError and leaves it, any other value prints a line and leaves it.
\<close>

theorem model_setter_second_piece:
  "model_setter (\<lambda>f. Inr [1, 2, 3]) self (PStr ''model.npy.txt'') =
     (self\<lparr>model := NdArray [1, 2, 3]\<rparr>, [], Inr ()) \<and>
   model_setter (\<lambda>f. Inr [1, 2, 3]) self (PStr ''./model.npy'') = (self, [], Inr ()) \<and>
   model_setter (\<lambda>f. Inr [1, 2, 3]) self (PStr ''model.npy'') =
     (self\<lparr>model := NdArray [1, 2, 3]\<rparr>, [], Inr ()) \<and>
   model_setter load self (PStr ''model.txt'') = (self, [], Inr ()) \<and>
   model_setter load self (PStr ''model.yaml'') = (self, [], Inr ()) \<and>
   model_setter load self (PList cs) = (self, [], Inl NameError) \<and>
   model_setter load self POther = (self, [EntryNotUnderstood], Inr ())"
  by (simp add: model_setter_def)

lemma model_setter_changes:
  assumes "fst (model_setter load self val) \<noteq> self"
  shows "\<exists>v. val = PStr v \<and> 2 \<le> length (split_on (CHR ''.'') v) \<and>
           split_on (CHR ''.'') v ! 1 = ''npy''"
  using assms
  by (cases val) (auto simp: model_setter_def Let_def split: if_splits sum.splits)

end
